theory Spec2Isabelle
  imports Main "HOL-Library.AList" "HOL-Library.Word"
begin

section \<open>Strings and POSIX paths\<close>

text \<open>
  The driver manipulates paths with Node's \<open>path\<close> module (POSIX flavour) and with
  \<open>String.prototype.split\<close>. A path is a \<open>string\<close>; the functions below follow Node's
  definitions segment by segment.
\<close>

definition slash :: char where
  "slash = CHR ''/''"

text \<open>\<open>s.split(c)\<close>: never empty, \<open>''''.split(c)\<close> is \<open>['''']\<close>.\<close>

fun split_on :: "char \<Rightarrow> string \<Rightarrow> string list" where
  "split_on c [] = [[]]"
| "split_on c (x # xs) =
     (if x = c then [] # split_on c xs
      else case split_on c xs of
             [] \<Rightarrow> [[x]]
           | y # ys \<Rightarrow> (x # y) # ys)"

fun join_with :: "string \<Rightarrow> string list \<Rightarrow> string" where
  "join_with sep [] = []"
| "join_with sep [s] = s"
| "join_with sep (s # t # ts) = s @ sep @ join_with sep (t # ts)"

text \<open>
  \<open>normalizeString(path, allowAboveRoot)\<close> of Node's \<open>path\<close>: empty and \<open>.\<close> segments are
  dropped, \<open>..\<close> removes the last kept segment unless there is none or it is \<open>..\<close> itself;
  then \<open>..\<close> is kept when \<open>allowAboveRoot\<close> holds and dropped otherwise.
\<close>

fun normalizeString :: "bool \<Rightarrow> string list \<Rightarrow> string list \<Rightarrow> string list" where
  "normalizeString allow res [] = res"
| "normalizeString allow res (s # ss) =
     (if s = [] \<or> s = ''.'' then normalizeString allow res ss
      else if s = ''..'' then
        (if res \<noteq> [] \<and> last res \<noteq> ''..'' then normalizeString allow (butlast res) ss
         else if allow then normalizeString allow (res @ [''..'']) ss
         else normalizeString allow res ss)
      else normalizeString allow (res @ [s]) ss)"

text \<open>
  \<open>path.resolve(...args)\<close>: the arguments are taken from the right, each prepended with a
  \<open>/\<close> between, until one is absolute; the working directory (always absolute) comes last.
  \<open>resolve_acc\<close> receives the arguments in that order.
\<close>

fun resolve_acc :: "string list \<Rightarrow> string \<Rightarrow> string" where
  "resolve_acc [] acc = acc"
| "resolve_acc (p # ps) acc =
     (if p = [] then resolve_acc ps acc
      else if hd p = slash then p @ [slash] @ acc
      else resolve_acc ps (p @ [slash] @ acc))"

definition resolve_segs :: "string \<Rightarrow> string list \<Rightarrow> string list" where
  "resolve_segs wd args =
     normalizeString False [] (split_on slash (resolve_acc (rev args @ [wd]) []))"

definition path_resolve :: "string \<Rightarrow> string list \<Rightarrow> string" where
  "path_resolve wd args = slash # join_with [slash] (resolve_segs wd args)"

text \<open>
  \<open>path.dirname\<close>: scanning from the right down to index 1, trailing slashes are skipped,
  then the base name (\<open>dirname_scan\<close> is what is left, reversed); the result is the text
  before the slash found, \<open>.\<close> or \<open>/\<close> when there is none.
\<close>

definition dirname_scan :: "string \<Rightarrow> string" where
  "dirname_scan p =
     dropWhile (\<lambda>c. c \<noteq> slash) (dropWhile (\<lambda>c. c = slash) (rev (tl p)))"

definition path_dirname :: "string \<Rightarrow> string" where
  "path_dirname p =
     (if p = [] then ''.''
      else let hasRoot = (hd p = slash);
               r = dirname_scan p
           in if r = [] then (if hasRoot then ''/'' else ''.'')
              else if hasRoot \<and> length r = 1 then ''//''
              else take (length r) p)"

text \<open>\<open>path.basename\<close> without extension argument: the last segment, trailing slashes skipped.\<close>

definition path_basename :: "string \<Rightarrow> string" where
  "path_basename p = rev (takeWhile (\<lambda>c. c \<noteq> slash) (dropWhile (\<lambda>c. c = slash) (rev p)))"

text \<open>
  \<open>path.normalize\<close> and \<open>path.join\<close>: the non-empty arguments are joined with \<open>/\<close> and
  normalized; a trailing slash is kept, the empty result is \<open>.\<close>.
\<close>

definition path_normalize :: "string \<Rightarrow> string" where
  "path_normalize p =
     (if p = [] then ''.''
      else let isAbsolute = (hd p = slash);
               trailingSeparator = (last p = slash);
               n = join_with [slash] (normalizeString (\<not> isAbsolute) [] (split_on slash p));
               n1 = (if n = [] \<and> \<not> isAbsolute then ''.'' else n);
               n2 = (if n1 \<noteq> [] \<and> trailingSeparator then n1 @ [slash] else n1)
           in if isAbsolute then slash # n2 else n2)"

definition path_join :: "string list \<Rightarrow> string" where
  "path_join args =
     (let joined = join_with [slash] (filter (\<lambda>a. a \<noteq> []) args)
      in if joined = [] then ''.'' else path_normalize joined)"

text \<open>
  \<open>path.relative(from, to)\<close>: both are resolved (a relative one against the working
  directory), the common leading segments are dropped, and one \<open>..\<close> per remaining
  segment of \<open>from\<close> leads to the rest of \<open>to\<close>.
\<close>

fun drop_common :: "string list \<Rightarrow> string list \<Rightarrow> string list \<times> string list" where
  "drop_common (x # xs) (y # ys) = (if x = y then drop_common xs ys else (x # xs, y # ys))"
| "drop_common xs ys = (xs, ys)"

definition path_relative :: "string \<Rightarrow> string \<Rightarrow> string \<Rightarrow> string" where
  "path_relative wd frm dest =
     (if frm = dest then []
      else let (f, t) = drop_common (resolve_segs wd [frm]) (resolve_segs wd [dest])
           in join_with [slash] (map (\<lambda>_. ''..'') f @ t))"

text \<open>\<open>String.prototype.toLowerCase\<close> on the ASCII letters (strings are 8-bit here).\<close>

definition lower_char :: "char \<Rightarrow> char" where
  "lower_char c =
     (let n = of_char c :: nat in if 65 \<le> n \<and> n \<le> 90 then char_of (n + 32) else c)"

definition toLowerCase :: "string \<Rightarrow> string" where
  "toLowerCase s = map lower_char s"

section \<open>Errors, promises and the process environment\<close>

datatype errno = ENOENT | ENOTDIR | EISDIR | EEXIST | EACCES

text \<open>
  Thrown values: the system errors of \<open>fs\<close> (with their \<open>code\<close>), plain \<open>Error\<close>s with a
  message, and \<open>VError\<close>s wrapping a cause.
\<close>

datatype error = SystemError errno | Error string | VError error string

fun code :: "error \<Rightarrow> errno option" where
  "code (SystemError c) = Some c"
| "code (Error m) = None"
| "code (VError e m) = None"

datatype 'a promise = Fulfilled 'a | Rejected error

text \<open>
  \<open>await p\<close> inside a \<open>try\<close> block: a rejection becomes an exception the \<open>catch\<close> sees.
  A promise that is returned without \<open>await\<close> is handed to the caller as it is.
\<close>

fun await :: "'a promise \<Rightarrow> error + 'a" where
  "await (Fulfilled v) = Inr v"
| "await (Rejected e) = Inl e"

type_synonym buffer = "8 word list"

datatype content = Str string | Buf buffer

datatype json =
  JNull | JBool bool | JNumber int | JString string
  | JArray "json list" | JObject "(string \<times> json) list"

text \<open>An archive lists files with their bytes and directories, by relative path.\<close>

datatype tar_entry = TFile string buffer | TDir string

text \<open>
  The process and the libraries the driver calls: \<open>process.PROJECT_LOCATION\<close>,
  \<open>process.cwd()\<close> (an absolute path), the encoding of a string written to a file,
  \<open>JSON.parse(buffer.toString())\<close>, which throws on malformed text, \<open>minimatch\<close> of a path
  against an \<open>ignore\<close> pattern, an error that makes \<open>glob\<close> fail (if any), the order
  of \<open>a.localeCompare(b)\<close>, by which \<open>glob\<close> sorts its matches (\<open>locale_le a b\<close> when the
  result is not positive), and the codec of \<open>tar\<close> with gzip: the bytes of an archive of
  given entries, the bytes that have reached the file when packing stops early, the
  entries \<open>tar.x\<close> reads in strict mode, and the entries \<open>tar.list\<close> reads from a
  tarball that is to be included (\<open>None\<close> when it reports an error).
\<close>

record env =
  PROJECT_LOCATION :: string
  cwd :: string
  encode :: "string \<Rightarrow> buffer"
  JSON_parse :: "buffer \<Rightarrow> error + json"
  minimatch :: "string \<Rightarrow> string \<Rightarrow> bool"
  glob_error :: "error option"
  locale_le :: "string \<Rightarrow> string \<Rightarrow> bool"
  tar_pack :: "tar_entry list \<Rightarrow> buffer"
  tar_partial :: "tar_entry list \<Rightarrow> buffer"
  tar_unpack :: "buffer \<Rightarrow> error + tar_entry list"
  tar_list :: "buffer \<Rightarrow> tar_entry list option"

definition quoted :: "string \<Rightarrow> string" where
  "quoted s = CHR 0x22 # s @ [CHR 0x22]"

section \<open>The file system\<close>

text \<open>
  A file system maps absolute, normalized paths (lists of segments, the root being \<open>[]\<close>)
  to nodes; \<open>unreadable\<close> lists the directories the process has no read permission on.
  Permissions of regular files are not modelled: each can be read and written.
\<close>

datatype node = File buffer | Dir

record filesystem =
  entries :: "(string list \<times> node) list"
  unreadable :: "string list list"

definition node_at :: "filesystem \<Rightarrow> string list \<Rightarrow> node option" where
  "node_at fs q = (if q = [] then Some Dir else map_of (entries fs) q)"

text \<open>Path lookup walks down from \<open>pre\<close>: every component on the way is a directory.\<close>

fun walk :: "filesystem \<Rightarrow> string list \<Rightarrow> string list \<Rightarrow> errno + node" where
  "walk fs pre [] = (case node_at fs pre of None \<Rightarrow> Inl ENOENT | Some n \<Rightarrow> Inr n)"
| "walk fs pre (s # ss) =
     (case node_at fs pre of
        None \<Rightarrow> Inl ENOENT
      | Some (File b) \<Rightarrow> Inl ENOTDIR
      | Some Dir \<Rightarrow> walk fs (pre @ [s]) ss)"

definition stat :: "filesystem \<Rightarrow> string list \<Rightarrow> errno + node" where
  "stat fs q = walk fs [] q"

definition fs_readFile :: "filesystem \<Rightarrow> string list \<Rightarrow> errno + buffer" where
  "fs_readFile fs q =
     (case stat fs q of
        Inl e \<Rightarrow> Inl e
      | Inr Dir \<Rightarrow> Inl EISDIR
      | Inr (File b) \<Rightarrow> Inr b)"

text \<open>\<open>access(path, R_OK)\<close>.\<close>

definition fs_access :: "filesystem \<Rightarrow> string list \<Rightarrow> errno + unit" where
  "fs_access fs q =
     (case stat fs q of
        Inl e \<Rightarrow> Inl e
      | Inr (File b) \<Rightarrow> Inr ()
      | Inr Dir \<Rightarrow> if q \<in> set (unreadable fs) then Inl EACCES else Inr ())"

definition put :: "filesystem \<Rightarrow> string list \<Rightarrow> node \<Rightarrow> filesystem" where
  "put fs q n = fs\<lparr>entries := AList.update q n (entries fs)\<rparr>"

definition fs_writeFile :: "filesystem \<Rightarrow> string list \<Rightarrow> buffer \<Rightarrow> errno + filesystem" where
  "fs_writeFile fs q b =
     (if q = [] then Inl EISDIR
      else case stat fs (butlast q) of
        Inl e \<Rightarrow> Inl e
      | Inr (File c) \<Rightarrow> Inl ENOTDIR
      | Inr Dir \<Rightarrow>
          (case node_at fs q of
             Some Dir \<Rightarrow> Inl EISDIR
           | _ \<Rightarrow> Inr (put fs q (File b))))"

text \<open>
  \<open>mkdirp\<close>: every missing directory on the way is created; a regular file in the way is
  an error (\<open>EEXIST\<close> at the path itself, \<open>ENOTDIR\<close> above it).
\<close>

fun mkdirs :: "filesystem \<Rightarrow> string list \<Rightarrow> string list \<Rightarrow> errno + filesystem" where
  "mkdirs fs pre [] = Inr fs"
| "mkdirs fs pre (s # ss) =
     (case node_at fs (pre @ [s]) of
        Some (File b) \<Rightarrow> Inl (if ss = [] then EEXIST else ENOTDIR)
      | Some Dir \<Rightarrow> mkdirs fs (pre @ [s]) ss
      | None \<Rightarrow> mkdirs (put fs (pre @ [s]) Dir) (pre @ [s]) ss)"

definition fs_mkdirp :: "filesystem \<Rightarrow> string list \<Rightarrow> errno + filesystem" where
  "fs_mkdirp fs q = mkdirs fs [] q"

definition fs_unlink :: "filesystem \<Rightarrow> string list \<Rightarrow> errno + filesystem" where
  "fs_unlink fs q =
     (case stat fs q of
        Inl e \<Rightarrow> Inl e
      | Inr Dir \<Rightarrow> Inl EISDIR
      | Inr (File b) \<Rightarrow> Inr (fs\<lparr>entries := AList.delete q (entries fs)\<rparr>))"

text \<open>
  The \<open>fs-extra\<close> calls of the driver. Called without a callback each returns a promise
  and never throws; a path is resolved against the working directory.
\<close>

definition as_promise :: "errno + 'a \<Rightarrow> 'a promise" where
  "as_promise r = (case r of Inl c \<Rightarrow> Rejected (SystemError c) | Inr v \<Rightarrow> Fulfilled v)"

definition fse_readFile :: "env \<Rightarrow> filesystem \<Rightarrow> string \<Rightarrow> error + buffer promise" where
  "fse_readFile ev fs p = Inr (as_promise (fs_readFile fs (resolve_segs (cwd ev) [p])))"

definition fse_access :: "env \<Rightarrow> filesystem \<Rightarrow> string \<Rightarrow> unit promise" where
  "fse_access ev fs p = as_promise (fs_access fs (resolve_segs (cwd ev) [p]))"

definition fse_mkdirp :: "env \<Rightarrow> filesystem \<Rightarrow> string \<Rightarrow> filesystem \<times> unit promise" where
  "fse_mkdirp ev fs p =
     (case fs_mkdirp fs (resolve_segs (cwd ev) [p]) of
        Inl c \<Rightarrow> (fs, Rejected (SystemError c))
      | Inr fs' \<Rightarrow> (fs', Fulfilled ()))"

fun to_buffer :: "env \<Rightarrow> content \<Rightarrow> buffer" where
  "to_buffer ev (Str s) = encode ev s"
| "to_buffer ev (Buf b) = b"

definition fse_writeFile ::
  "env \<Rightarrow> filesystem \<Rightarrow> string \<Rightarrow> content \<Rightarrow> filesystem \<times> unit promise" where
  "fse_writeFile ev fs p c =
     (case fs_writeFile fs (resolve_segs (cwd ev) [p]) (to_buffer ev c) of
        Inl e \<Rightarrow> (fs, Rejected (SystemError e))
      | Inr fs' \<Rightarrow> (fs', Fulfilled ()))"

definition fse_unlink ::
  "env \<Rightarrow> filesystem \<Rightarrow> string \<Rightarrow> error + filesystem \<times> unit promise" where
  "fse_unlink ev fs p =
     Inr (case fs_unlink fs (resolve_segs (cwd ev) [p]) of
            Inl c \<Rightarrow> (fs, Rejected (SystemError c))
          | Inr fs' \<Rightarrow> (fs', Fulfilled ()))"

section \<open>DiskStorageDriver\<close>

definition resolvePath :: "env \<Rightarrow> string \<Rightarrow> string" where
  "resolvePath ev p = path_resolve (cwd ev) [PROJECT_LOCATION ev, p]"

definition upsert_message :: "string \<Rightarrow> string" where
  "upsert_message filePath = ''[Disk Storage] Error upserting file '' @ quoted filePath"

text \<open>\<open>upsertFile\<close>: both calls are awaited inside the \<open>try\<close>; \<open>recordRevision\<close> is not used.\<close>

definition upsertFile ::
  "env \<Rightarrow> filesystem \<Rightarrow> string \<Rightarrow> content \<Rightarrow> bool \<Rightarrow> filesystem \<times> unit promise" where
  "upsertFile ev fs filePath c recordRevision =
     (let folder = path_dirname (resolvePath ev filePath);
          (fs1, r1) = fse_mkdirp ev fs folder
      in case await r1 of
           Inl e \<Rightarrow> (fs1, Rejected (VError e (upsert_message filePath)))
         | Inr u \<Rightarrow>
             (let (fs2, r2) = fse_writeFile ev fs1 (resolvePath ev filePath) c
              in case await r2 of
                   Inl e \<Rightarrow> (fs2, Rejected (VError e (upsert_message filePath)))
                 | Inr v \<Rightarrow> (fs2, Fulfilled ())))"

definition not_found_message :: "string \<Rightarrow> string" where
  "not_found_message filePath = ''[Disk Storage] File '' @ quoted filePath @ '' not found''"

definition read_message :: "string \<Rightarrow> string" where
  "read_message filePath = ''[Disk Storage] Error reading file '' @ quoted filePath"

text \<open>
  \<open>readFile\<close>: the promise of \<open>fse.readFile\<close> is returned from inside the \<open>try\<close> without
  \<open>await\<close>, so the \<open>catch\<close> block only sees what the call itself throws.
\<close>

definition readFile :: "env \<Rightarrow> filesystem \<Rightarrow> string \<Rightarrow> buffer promise" where
  "readFile ev fs filePath =
     (case fse_readFile ev fs (resolvePath ev filePath) of
        Inr p \<Rightarrow> p
      | Inl e \<Rightarrow>
          if code e = Some ENOENT then Rejected (Error (not_found_message filePath))
          else Rejected (VError e (read_message filePath)))"

definition delete_message :: "string \<Rightarrow> string" where
  "delete_message filePath = ''[Disk Storage] Error deleting file '' @ quoted filePath"

definition deleteFile ::
  "env \<Rightarrow> filesystem \<Rightarrow> string \<Rightarrow> bool \<Rightarrow> filesystem \<times> unit promise" where
  "deleteFile ev fs filePath recordRevision =
     (case fse_unlink ev fs (resolvePath ev filePath) of
        Inr r \<Rightarrow> r
      | Inl e \<Rightarrow> (fs, Rejected (VError e (delete_message filePath))))"

definition deleteRevision ::
  "env \<Rightarrow> filesystem \<Rightarrow> string \<Rightarrow> string \<Rightarrow> filesystem \<times> unit promise" where
  "deleteRevision ev fs filePath revision = (fs, Rejected (Error ''Method not implemented.''))"

section \<open>Listing a directory with \<open>glob\<close>\<close>

text \<open>
  The pattern \<open>**/*.*\<close>: any number of directories, then a name matching \<open>*.*\<close>, that is,
  a name with a \<open>.\<close> in it (each \<open>*\<close> also matches nothing). Without the \<open>dot\<close> option no
  segment on the way may start with a \<open>.\<close>.
\<close>

definition dotted :: "string \<Rightarrow> bool" where
  "dotted s = (CHR ''.'' \<in> set s)"

definition hidden :: "string \<Rightarrow> bool" where
  "hidden s = (s \<noteq> [] \<and> hd s = CHR ''.'')"

definition glob_match :: "bool \<Rightarrow> string list \<Rightarrow> bool" where
  "glob_match dot rel = (rel \<noteq> [] \<and> dotted (last rel) \<and> (dot \<or> \<not> list_ex hidden rel))"

definition under :: "string list \<Rightarrow> string list \<Rightarrow> string list option" where
  "under base q =
     (if length base < length q \<and> take (length base) q = base
      then Some (drop (length base) q) else None)"

text \<open>
  \<open>glob\<close> reaches an entry by reading the directories from \<open>cwd\<close> down to it; what lies
  below a directory that cannot be read is left out, without an error.
\<close>

fun readable_way :: "filesystem \<Rightarrow> string list \<Rightarrow> string list \<Rightarrow> bool" where
  "readable_way fs pre [] = True"
| "readable_way fs pre (s # ss) =
     (pre \<notin> set (unreadable fs) \<and> readable_way fs (pre @ [s]) ss)"

definition exists_node :: "filesystem \<Rightarrow> string list \<Rightarrow> bool" where
  "exists_node fs q = (case stat fs q of Inl e \<Rightarrow> False | Inr n \<Rightarrow> True)"

definition reachable :: "filesystem \<Rightarrow> string list \<Rightarrow> string list \<Rightarrow> bool" where
  "reachable fs base rel = (exists_node fs (base @ rel) \<and> readable_way fs base rel)"

record glob_options =
  cwd_option :: string
  dot :: bool
  ignore :: "string list option"

definition ignored :: "env \<Rightarrow> string list option \<Rightarrow> string \<Rightarrow> bool" where
  "ignored ev ig f = (case ig of None \<Rightarrow> False | Some pats \<Rightarrow> list_ex (minimatch ev f) pats)"

text \<open>
  \<open>glob('**/*.*', options, cb)\<close>: the matches, files and directories alike, relative to
  \<open>cwd\<close>, each once, sorted with \<open>localeCompare\<close> (the sort is stable).
\<close>

fun insert_sorted :: "('a \<Rightarrow> 'a \<Rightarrow> bool) \<Rightarrow> 'a \<Rightarrow> 'a list \<Rightarrow> 'a list" where
  "insert_sorted le x [] = [x]"
| "insert_sorted le x (y # ys) =
     (if le x y then x # y # ys else y # insert_sorted le x ys)"

definition alphasort :: "('a \<Rightarrow> 'a \<Rightarrow> bool) \<Rightarrow> 'a list \<Rightarrow> 'a list" where
  "alphasort le xs = foldr (insert_sorted le) xs []"

definition glob_matches :: "env \<Rightarrow> filesystem \<Rightarrow> glob_options \<Rightarrow> string list list" where
  "glob_matches ev fs opts =
     (let base = resolve_segs (cwd ev) [cwd_option opts]
      in filter (\<lambda>rel. reachable fs base rel \<and> glob_match (dot opts) rel
                        \<and> \<not> ignored ev (ignore opts) (join_with [slash] rel))
           (List.map_filter (under base) (remdups (map fst (entries fs)))))"

definition glob :: "env \<Rightarrow> filesystem \<Rightarrow> glob_options \<Rightarrow> string list promise" where
  "glob ev fs opts =
     (case glob_error ev of
        Some e \<Rightarrow> Rejected e
      | None \<Rightarrow>
          Fulfilled (alphasort (locale_le ev) (map (join_with [slash]) (glob_matches ev fs opts))))"

text \<open>
  Modelled from the spec: \<open>forceForwardSlashes\<close> of \<open>core/misc/utils\<close> is not under
  \<open>src/\<close>. Paths are returned with forward-slash separators regardless of the host's
  convention: the separator of the other convention, the backslash, becomes a slash.
\<close>

definition forceForwardSlashes :: "string \<Rightarrow> string" where
  "forceForwardSlashes p = map (\<lambda>c. if c = CHR 0x5C then slash else c) p"

text \<open>The \<open>exclude\<close> argument: a string, an array of strings, or \<open>undefined\<close>.\<close>

datatype exclude = One string | Many "string list"

fun ignore_option :: "exclude option \<Rightarrow> string list option" where
  "ignore_option None = None"
| "ignore_option (Some (One s)) = (if s = [] then None else Some [s])"
| "ignore_option (Some (Many ss)) = Some ss"

definition access_message :: "string \<Rightarrow> string" where
  "access_message folder = ''[Disk Storage] No read access to directory '' @ quoted folder"

definition directoryListing ::
  "env \<Rightarrow> filesystem \<Rightarrow> string \<Rightarrow> exclude option \<Rightarrow> bool \<Rightarrow> string list promise" where
  "directoryListing ev fs folder exclude includeDotFiles =
     (case await (fse_access ev fs (resolvePath ev folder)) of
        Inl e \<Rightarrow>
          if code e = Some ENOENT then Fulfilled []
          else Rejected (VError e (access_message folder))
      | Inr u \<Rightarrow>
          (let options = \<lparr>cwd_option = resolvePath ev folder, dot = includeDotFiles,
                          ignore = ignore_option exclude\<rparr>
           in case await (glob ev fs options) of
                Inl e \<Rightarrow> Fulfilled []
              | Inr files \<Rightarrow> Fulfilled (map forceForwardSlashes files)))"

section \<open>Revisions and trackable folders\<close>

text \<open>
  \<open>listRevisions\<close>: the read is awaited inside the \<open>try\<close>, so a rejected read and a
  failing \<open>JSON.parse\<close> both end in the \<open>catch\<close>, which returns \<open>[]\<close>.
\<close>

definition listRevisions :: "env \<Rightarrow> filesystem \<Rightarrow> string \<Rightarrow> json promise" where
  "listRevisions ev fs pathPrefix =
     (case await (readFile ev fs (path_join [pathPrefix, ''revisions.json''])) of
        Inl err \<Rightarrow> Fulfilled (JArray [])
      | Inr content \<Rightarrow>
          (case JSON_parse ev content of
             Inl err \<Rightarrow> Fulfilled (JArray [])
           | Inr v \<Rightarrow> Fulfilled v))"

text \<open>\<open>_.uniq\<close> keeps the first occurrence of each value; \<open>_.without\<close> filters values out.\<close>

fun uniq_from :: "'a list \<Rightarrow> 'a list \<Rightarrow> 'a list" where
  "uniq_from seen [] = []"
| "uniq_from seen (x # xs) =
     (if x \<in> set seen then uniq_from seen xs else x # uniq_from (x # seen) xs)"

definition uniq :: "'a list \<Rightarrow> 'a list" where
  "uniq xs = uniq_from [] xs"

definition without :: "'a list \<Rightarrow> 'a list \<Rightarrow> 'a list" where
  "without xs vs = filter (\<lambda>x. x \<notin> set vs) xs"

definition getBaseDirectories :: "env \<Rightarrow> string list \<Rightarrow> string list" where
  "getBaseDirectories ev files =
     uniq (map (\<lambda>f. hd (split_on slash f))
            (map path_dirname
              (map (\<lambda>f. path_relative (cwd ev) (PROJECT_LOCATION ev) f) files)))"

definition discoverTrackableFolders :: "env \<Rightarrow> filesystem \<Rightarrow> string \<Rightarrow> string list promise" where
  "discoverTrackableFolders ev fs baseDir =
     (case await (directoryListing ev fs baseDir None True) of
        Inl err \<Rightarrow> Fulfilled []
      | Inr allFiles \<Rightarrow>
          (let allDirectories = getBaseDirectories ev allFiles;
               noghostFiles =
                 filter (\<lambda>x. toLowerCase (path_basename x) = ''.noghost'') allFiles;
               noghostDirectories = getBaseDirectories ev noghostFiles
           in Fulfilled (without allDirectories noghostDirectories)))"

section \<open>Archives\<close>

text \<open>
  \<open>tar.create({cwd: folder, file: fileName, portable, gzip}, files)\<close>. An empty list of
  \<open>files\<close> is refused with a \<open>TypeError\<close> before anything is done. Otherwise the archive
  file is opened for writing first, which creates it or empties it, and then the paths
  are added in turn: a path that starts with \<open>@\<close> names a tarball below \<open>folder\<close> whose
  entries are included; any other path is read below \<open>folder\<close>, a directory with all that
  lies below it, and a missing path is an error. When adding stops early the file keeps
  what had reached it. \<open>folder\<close> and \<open>fileName\<close> go to \<open>tar\<close> as they are, so they are
  resolved against the working directory, not against \<open>PROJECT_LOCATION\<close>.
\<close>

definition below :: "filesystem \<Rightarrow> string list \<Rightarrow> string list list" where
  "below fs base =
     filter (\<lambda>rel. exists_node fs (base @ rel))
       (List.map_filter (under base) (remdups (map fst (entries fs))))"









text \<open>
  \<open>tar.x({sync, strict, cwd: destination})\<close>: every entry is written below \<open>destination\<close>,
  its directories created on the way; in strict mode an absolute path or one with a \<open>..\<close>
  segment is an error, as is any failure to write. What was unpacked before stays.
\<close>

definition entry_segments :: "string \<Rightarrow> error + string list" where
  "entry_segments p =
     (if p \<noteq> [] \<and> hd p = slash then Inl (Error ''TAR_ENTRY_ERROR'')
      else if ''..'' \<in> set (split_on slash p) then Inl (Error ''TAR_ENTRY_ERROR'')
      else Inr (filter (\<lambda>s. s \<noteq> [] \<and> s \<noteq> ''.'') (split_on slash p)))"

fun unpack_entry :: "filesystem \<Rightarrow> string list \<Rightarrow> tar_entry \<Rightarrow> error + filesystem" where
  "unpack_entry fs d (TDir p) =
     (case entry_segments p of
        Inl e \<Rightarrow> Inl e
      | Inr rel \<Rightarrow>
          (case mkdirs fs d rel of Inl c \<Rightarrow> Inl (SystemError c) | Inr fs' \<Rightarrow> Inr fs'))"
| "unpack_entry fs d (TFile p b) =
     (case entry_segments p of
        Inl e \<Rightarrow> Inl e
      | Inr rel \<Rightarrow>
          (case mkdirs fs d (butlast rel) of
             Inl c \<Rightarrow> Inl (SystemError c)
           | Inr fs1 \<Rightarrow>
               (case fs_writeFile fs1 (d @ rel) b of
                  Inl c \<Rightarrow> Inl (SystemError c)
                | Inr fs2 \<Rightarrow> Inr fs2)))"

fun unpack :: "filesystem \<Rightarrow> string list \<Rightarrow> tar_entry list \<Rightarrow> filesystem \<times> error option" where
  "unpack fs d [] = (fs, None)"
| "unpack fs d (e # es) =
     (case unpack_entry fs d e of
        Inl err \<Rightarrow> (fs, Some err)
      | Inr fs' \<Rightarrow> unpack fs' d es)"

text \<open>\<open>fse.mkdirSync\<close>, not recursive: the parent has to be a directory.\<close>

definition fs_mkdir :: "filesystem \<Rightarrow> string list \<Rightarrow> errno + filesystem" where
  "fs_mkdir fs q =
     (case stat fs (butlast q) of
        Inl e \<Rightarrow> Inl e
      | Inr (File b) \<Rightarrow> Inl ENOTDIR
      | Inr Dir \<Rightarrow> if node_at fs q = None then Inr (put fs q Dir) else Inl EEXIST)"

text \<open>
  \<open>extractArchive\<close>: nothing is caught here, so what \<open>mkdirSync\<close>, \<open>tar\<close> or \<open>glob\<close> raises
  rejects the call as it is. The promise on the stream's \<open>end\<close> and \<open>error\<close> events is
  taken to settle when the extraction is over.
\<close>

definition extractArchive ::
  "env \<Rightarrow> filesystem \<Rightarrow> buffer \<Rightarrow> string \<Rightarrow> filesystem \<times> string list promise" where
  "extractArchive ev fs archive destination =
     (let d = resolve_segs (cwd ev) [destination]
      in case (if exists_node fs d then Inr fs else fs_mkdir fs d) of
           Inl c \<Rightarrow> (fs, Rejected (SystemError c))
         | Inr fs1 \<Rightarrow>
             (case tar_unpack ev archive of
                Inl e \<Rightarrow> (fs1, Rejected e)
              | Inr es \<Rightarrow>
                  (case unpack fs1 d es of
                     (fs2, Some e) \<Rightarrow> (fs2, Rejected e)
                   | (fs2, None) \<Rightarrow>
                       (case glob ev fs2
                               \<lparr>cwd_option = destination, dot = False, ignore = None\<rparr> of
                          Rejected e \<Rightarrow> (fs2, Rejected e)
                        | Fulfilled files \<Rightarrow>
                            (fs2, Fulfilled (map forceForwardSlashes files))))))"

section \<open>Notions used by the properties\<close>

text \<open>Segments as \<open>path.resolve\<close> leaves them: non-empty, no \<open>.\<close> or \<open>..\<close>, no slash inside.\<close>

definition clean :: "string list \<Rightarrow> bool" where
  "clean segs = (\<forall>s\<in>set segs. s \<noteq> [] \<and> s \<noteq> ''.'' \<and> s \<noteq> ''..'' \<and> slash \<notin> set s)"

definition path_segments :: "string \<Rightarrow> string list" where
  "path_segments p = filter (\<lambda>s. s \<noteq> []) (split_on slash p)"

text \<open>The store root is \<open>process.PROJECT_LOCATION\<close>, as \<open>path.resolve\<close> gives it.\<close>

definition storeRoot :: "env \<Rightarrow> string" where
  "storeRoot ev = path_resolve (cwd ev) [PROJECT_LOCATION ev]"

definition inside :: "string \<Rightarrow> string \<Rightarrow> bool" where
  "inside root p =
     (take (length (path_segments root)) (path_segments p) = path_segments root)"

definition strictly_inside :: "string \<Rightarrow> string \<Rightarrow> bool" where
  "strictly_inside root p =
     (inside root p \<and> length (path_segments root) < length (path_segments p))"

text \<open>The node a logical path stands for.\<close>

definition location :: "env \<Rightarrow> string \<Rightarrow> string list" where
  "location ev p = path_segments (resolvePath ev p)"

text \<open>Where \<open>listRevisions\<close> looks for the ledger of a prefix.\<close>

definition ledger_path :: "env \<Rightarrow> string \<Rightarrow> string list" where
  "ledger_path ev pathPrefix = location ev (path_join [pathPrefix, ''revisions.json''])"

text \<open>A regular file at \<open>pre\<close> or at a directory position further down the way.\<close>

fun file_on_way :: "filesystem \<Rightarrow> string list \<Rightarrow> string list \<Rightarrow> bool" where
  "file_on_way fs pre [] = False"
| "file_on_way fs pre (s # ss) =
     ((case node_at fs pre of Some (File b) \<Rightarrow> True | _ \<Rightarrow> False)
      \<or> file_on_way fs (pre @ [s]) ss)"

text \<open>Every entry of a well-formed store lies in a directory of the store.\<close>

definition wellformed :: "filesystem \<Rightarrow> bool" where
  "wellformed fs =
     list_all (\<lambda>(q, n). q = [] \<or> node_at fs (butlast q) = Some Dir) (entries fs)"

text \<open>
  Names as a POSIX file system has them (\<open>clean\<close>) and, in a tidy store, without a
  backslash.
\<close>

definition plain :: "string \<Rightarrow> bool" where
  "plain s = (CHR 0x5C \<notin> set s)"

definition tidy :: "filesystem \<Rightarrow> bool" where
  "tidy fs = list_all (\<lambda>(q, n). clean q \<and> list_all plain q) (entries fs)"

text \<open>
  The tree of the trackable-folder example, as paths below the base directory: the files
  \<open>a/x.txt\<close> and \<open>b/y.txt\<close>, and a marker \<open>m\<close> in the directories \<open>ds\<close> below \<open>b\<close>.
\<close>

definition marker_tree :: "string list \<Rightarrow> string \<Rightarrow> string list list" where
  "marker_tree ds m =
     [[''a''], [''a'', ''x.txt''], [''b''], [''b'', ''y.txt'']]
     @ map (\<lambda>k. ''b'' # take k ds) [1..<Suc (length ds)]
     @ [''b'' # ds @ [m]]"

text \<open>A name with a \<open>.\<close> that is followed by at least one character.\<close>

definition dot_then_char :: "string \<Rightarrow> bool" where
  "dot_then_char s = (CHR ''.'' \<in> set (butlast s))"



section \<open>A small store used for concrete runs\<close>

text \<open>
  \<open>example_parse\<close> stands for \<open>JSON.parse\<close> on the texts the runs below use: a ledger of
  one revision, the empty array, and anything else, taken as malformed.
\<close>

definition example_ledger :: string where
  \<open>example_ledger = ''[{"path":"a/x.txt","revision":"r1"}]''\<close>

definition example_revisions :: json where
  "example_revisions =
     JArray [JObject [(''path'', JString ''a/x.txt''), (''revision'', JString ''r1'')]]"

definition example_parse :: "buffer \<Rightarrow> error + json" where
  "example_parse b =
     (if b = map of_char example_ledger then Inr example_revisions
      else if b = map of_char ''[]'' then Inr (JArray [])
      else Inl (Error ''Unexpected token''))"

text \<open>
  A small codec in place of \<open>tar\<close> with gzip: each entry is a tag, the length of the path
  and the path, and for a file the length of its bytes and the bytes.
\<close>

fun example_pack :: "tar_entry list \<Rightarrow> buffer" where
  "example_pack [] = []"
| "example_pack (TDir p # es) = 2 # of_nat (length p) # map of_char p @ example_pack es"
| "example_pack (TFile p b # es) =
     1 # of_nat (length p) # map of_char p @ of_nat (length b) # b @ example_pack es"

fun example_unpack :: "nat \<Rightarrow> buffer \<Rightarrow> error + tar_entry list" where
  "example_unpack n [] = Inr []"
| "example_unpack 0 (t # bs) = Inl (Error ''TAR_BAD_ARCHIVE'')"
| "example_unpack (Suc n) [t] = Inl (Error ''TAR_BAD_ARCHIVE'')"
| "example_unpack (Suc n) (t # l # bs) =
     (let name = map (\<lambda>w. char_of (unat w)) (take (unat l) bs);
          rest = drop (unat l) bs
      in if t = 2 then
           (case example_unpack n rest of
              Inl e \<Rightarrow> Inl e
            | Inr es \<Rightarrow> Inr (TDir name # es))
         else
           (case rest of
              [] \<Rightarrow> Inl (Error ''TAR_BAD_ARCHIVE'')
            | m # rest2 \<Rightarrow>
                (case example_unpack n (drop (unat m) rest2) of
                   Inl e \<Rightarrow> Inl e
                 | Inr es \<Rightarrow> Inr (TFile name (take (unat m) rest2) # es))))"

text \<open>
  The order of character codes, which is the order of \<open>localeCompare\<close> on the names of
  the runs below.
\<close>

fun code_le :: "string \<Rightarrow> string \<Rightarrow> bool" where
  "code_le [] b = True"
| "code_le (x # a) [] = False"
| "code_le (x # a) (y # b) =
     ((of_char x :: nat) < of_char y \<or> (x = y \<and> code_le a b))"

definition example_env :: env where
  "example_env =
     \<lparr>PROJECT_LOCATION = ''/proj'', cwd = ''/proj'',
      encode = map of_char, JSON_parse = example_parse,
      minimatch = (\<lambda>f pat. f = pat), glob_error = None, locale_le = code_le,
      tar_pack = example_pack, tar_partial = example_pack,
      tar_unpack = (\<lambda>b. example_unpack (length b) b),
      tar_list = (\<lambda>b. case example_unpack (length b) b of Inl e \<Rightarrow> None | Inr es \<Rightarrow> Some es)\<rparr>"

definition source_store :: filesystem where
  "source_store =
     \<lparr>entries = [([''proj''], Dir), ([''proj'', ''src''], Dir),
                 ([''proj'', ''src'', ''README''], File [7]),
                 ([''proj'', ''src'', ''notes.''], File [6]),
                 ([''proj'', ''src'', ''b.txt''], File [8, 9])],
      unreadable = []\<rparr>"

definition example_archive :: buffer where
  "example_archive = example_pack [TFile ''README'' [7], TFile ''b.txt'' [8, 9]]"

definition extracted_store :: filesystem where
  "extracted_store =
     \<lparr>entries = [([''proj''], Dir), ([''proj'', ''dest''], Dir),
                 ([''proj'', ''dest'', ''README''], File [7]),
                 ([''proj'', ''dest'', ''b.txt''], File [8, 9])],
      unreadable = []\<rparr>"

definition marked_store :: filesystem where
  "marked_store =
     \<lparr>entries = [([''proj''], Dir), ([''proj'', ''data''], Dir),
                 ([''proj'', ''data'', ''a''], Dir),
                 ([''proj'', ''data'', ''a'', ''x.txt''], File [1]),
                 ([''proj'', ''data'', ''b''], Dir),
                 ([''proj'', ''data'', ''b'', ''y.txt''], File [2]),
                 ([''proj'', ''data'', ''b'', ''c''], Dir),
                 ([''proj'', ''data'', ''b'', ''c'', ''d''], Dir),
                 ([''proj'', ''data'', ''b'', ''c'', ''d'', ''.NoGhost''], File [])],
      unreadable = []\<rparr>"

definition elsewhere_env :: env where
  "elsewhere_env = example_env\<lparr>cwd := ''/srv''\<rparr>"

definition example_store :: filesystem where
  "example_store = \<lparr>entries = [([''proj''], Dir)], unreadable = []\<rparr>"

definition corrupt_store :: filesystem where
  "corrupt_store =
     \<lparr>entries = [([''proj''], Dir), ([''proj'', ''a''], Dir),
                 ([''proj'', ''a'', ''revisions.json''], File (map of_char ''[{''))],
      unreadable = []\<rparr>"

definition ledger_store :: filesystem where
  "ledger_store =
     \<lparr>entries = [([''proj''], Dir), ([''proj'', ''a''], Dir),
                 ([''proj'', ''a'', ''revisions.json''], File (map of_char example_ledger))],
      unreadable = []\<rparr>"

definition locked_store :: filesystem where
  "locked_store =
     \<lparr>entries = [([''proj''], Dir), ([''proj'', ''secret''], Dir)],
      unreadable = [[''proj'', ''secret'']]\<rparr>"

definition failing_glob_env :: env where
  "failing_glob_env = example_env\<lparr>glob_error := Some (Error ''aborted'')\<rparr>"


section \<open>Facts about paths\<close>

lemma split_on_ne [simp]: "split_on c s \<noteq> []"
  by (induction s) (auto split: list.splits)

lemma split_on_append: "split_on c (a @ c # b) = split_on c a @ split_on c b"
  by (induction a) (auto split: list.splits)

lemma split_on_notin: "c \<notin> set s \<Longrightarrow> split_on c s = [s]"
  by (induction s) (auto split: list.splits)

lemma split_on_free: "s \<in> set (split_on c x) \<Longrightarrow> c \<notin> set s"
proof (induction x arbitrary: s)
  case Nil then show ?case by simp
next
  case (Cons a x)
  show ?case
  proof (cases "a = c")
    case True with Cons show ?thesis by auto
  next
    case False
    obtain h t where ht: "split_on c x = h # t" by (cases "split_on c x") auto
    with Cons False show ?thesis by auto
  qed
qed

lemma split_join:
  "segs \<noteq> [] \<Longrightarrow> \<forall>s\<in>set segs. c \<notin> set s \<Longrightarrow> split_on c (join_with [c] segs) = segs"
proof (induction segs)
  case Nil then show ?case by simp
next
  case (Cons s segs)
  show ?case
  proof (cases segs)
    case Nil with Cons.prems show ?thesis by (simp add: split_on_notin)
  next
    case (Cons t ts)
    with Cons.IH Cons.prems have "split_on c (join_with [c] (t # ts)) = t # ts" by simp
    with Cons Cons.prems show ?thesis
      using split_on_append[of c s "join_with [c] (t # ts)"] by (simp add: split_on_notin)
  qed
qed


lemma normalize_append:
  "normalizeString al res (xs @ ys) = normalizeString al (normalizeString al res xs) ys"
  by (induction xs arbitrary: res) auto

lemma normalize_plain:
  "''..'' \<notin> set ss \<Longrightarrow>
   normalizeString al res ss = res @ filter (\<lambda>s. s \<noteq> [] \<and> s \<noteq> ''.'') ss"
  by (induction ss arbitrary: res) auto

lemma clean_butlast: "clean res \<Longrightarrow> clean (butlast res)"
  by (auto simp: clean_def dest: in_set_butlastD)

lemma normalize_clean:
  "clean res \<Longrightarrow> \<forall>s\<in>set ss. slash \<notin> set s \<Longrightarrow> clean (normalizeString False res ss)"
proof (induction ss arbitrary: res)
  case Nil then show ?case by simp
next
  case (Cons s ss)
  have "clean (res @ [s])" if "s \<noteq> []" "s \<noteq> ''.''" "s \<noteq> ''..''"
    using that Cons.prems by (auto simp: clean_def)
  then show ?case using Cons clean_butlast[of res] by auto
qed

lemma resolve_segs_clean: "clean (resolve_segs wd args)"
  unfolding resolve_segs_def
  by (rule normalize_clean) (auto simp: clean_def dest: split_on_free)

lemma clean_normalize_id: "clean segs \<Longrightarrow> normalizeString al res segs = res @ segs"
proof -
  assume c: "clean segs"
  then have "''..'' \<notin> set segs" by (auto simp: clean_def)
  then have "normalizeString al res segs = res @ filter (\<lambda>s. s \<noteq> [] \<and> s \<noteq> ''.'') segs"
    by (rule normalize_plain)
  moreover have "filter (\<lambda>s. s \<noteq> [] \<and> s \<noteq> ''.'') segs = segs"
    using c by (auto simp: clean_def intro: filter_True)
  ultimately show ?thesis by simp
qed

lemma split_abs:
  "clean segs \<Longrightarrow> normalizeString al [] (split_on slash (slash # join_with [slash] segs @ [slash])) = segs"
proof (cases "segs = []")
  case True then show ?thesis by simp
next
  case False
  assume c: "clean segs"
  have "split_on slash (join_with [slash] segs @ slash # []) = split_on slash (join_with [slash] segs) @ [[]]"
    using split_on_append[of slash "join_with [slash] segs" "[]"] by simp
  also have "\<dots> = segs @ [[]]" using split_join[OF False, of slash] c by (auto simp: clean_def)
  finally have "split_on slash (slash # join_with [slash] segs @ [slash]) = [] # segs @ [[]]"
    by simp
  then show ?thesis using clean_normalize_id[OF c, of al "[]"]
    by (simp add: normalize_append)
qed

lemma resolve_segs_abs:
  "clean segs \<Longrightarrow> resolve_segs wd [slash # join_with [slash] segs] = segs"
  using split_abs[of segs False] by (simp add: resolve_segs_def)

lemma resolve_segs_path_resolve [simp]:
  "resolve_segs wd [path_resolve wd' args] = resolve_segs wd' args"
  unfolding path_resolve_def by (rule resolve_segs_abs) (rule resolve_segs_clean)


lemma resolve_acc_acc: "resolve_acc ps acc = resolve_acc ps [] @ acc"
proof (induction ps arbitrary: acc)
  case Nil then show ?case by simp
next
  case (Cons p ps)
  show ?case using Cons.IH[of "p @ [slash] @ acc"] Cons.IH[of "p @ [slash]"] Cons.IH[of acc] by simp
qed

lemma resolve_acc_end: "resolve_acc ps [] = [] \<or> (\<exists>r. resolve_acc ps [] = r @ [slash])"
proof (induction ps)
  case Nil then show ?case by simp
next
  case (Cons p ps)
  show ?case using resolve_acc_acc[of ps "p @ [slash]"] Cons by auto
qed

lemma normalize_split_prefix:
  assumes "R = [] \<or> (\<exists>r. R = r @ [slash])"
  shows "normalizeString al [] (split_on slash (R @ q)) =
         normalizeString al (normalizeString al [] (split_on slash R)) (split_on slash q)"
proof (cases "R = []")
  case True then show ?thesis by simp
next
  case False
  with assms obtain r where r: "R = r @ [slash]" by auto
  have a: "split_on slash (R @ q) = split_on slash r @ split_on slash q"
    using split_on_append[of slash r q] r by simp
  have b: "split_on slash R = split_on slash r @ [[]]"
    using split_on_append[of slash r "[]"] r by simp
  show ?thesis by (simp add: a b normalize_append)
qed

lemma resolve_segs_relative:
  assumes rel: "p = [] \<or> hd p \<noteq> slash"
  shows "resolve_segs wd (args @ [p]) =
         normalizeString False (resolve_segs wd args) (split_on slash p)"
proof (cases "p = []")
  case True then show ?thesis by (simp add: resolve_segs_def)
next
  case False
  let ?R = "resolve_acc (rev args @ [wd]) []"
  from False rel have "resolve_acc (rev (args @ [p]) @ [wd]) [] = ?R @ p @ [slash]"
    using resolve_acc_acc[of "rev args @ [wd]" "p @ [slash]"] by simp
  moreover have "split_on slash (p @ [slash]) = split_on slash p @ [[]]"
    using split_on_append[of slash p "[]"] by simp
  ultimately show ?thesis
    using normalize_split_prefix[OF resolve_acc_end[of "rev args @ [wd]"], of False "p @ [slash]"]
    by (simp add: resolve_segs_def normalize_append)
qed

lemma path_segments_abs: "clean segs \<Longrightarrow> path_segments (slash # join_with [slash] segs) = segs"
proof (cases "segs = []")
  case True then show ?thesis by (simp add: path_segments_def)
next
  case False
  assume c: "clean segs"
  then have "split_on slash (join_with [slash] segs) = segs"
    using split_join[OF False, of slash] by (auto simp: clean_def)
  moreover have "filter (\<lambda>s. s \<noteq> []) segs = segs"
    using c by (auto simp: clean_def intro: filter_True)
  ultimately show ?thesis by (simp add: path_segments_def)
qed

lemma path_segments_resolve [simp]: "path_segments (path_resolve wd args) = resolve_segs wd args"
  unfolding path_resolve_def by (rule path_segments_abs) (rule resolve_segs_clean)

lemma resolvePath_segments:
  "p = [] \<or> hd p \<noteq> slash \<Longrightarrow> ''..'' \<notin> set (split_on slash p) \<Longrightarrow>
   path_segments (resolvePath ev p) =
   path_segments (storeRoot ev) @ filter (\<lambda>s. s \<noteq> [] \<and> s \<noteq> ''.'') (split_on slash p)"
  using resolve_segs_relative[of p "cwd ev" "[PROJECT_LOCATION ev]"]
  by (simp add: resolvePath_def storeRoot_def normalize_plain)

lemmas path_eval =
  resolvePath_def storeRoot_def path_resolve_def resolve_segs_def slash_def
  path_segments_def example_env_def

section \<open>Path resolution and the store root\<close>

lemma normalize_keeps_leading:
  "acc \<noteq> [] \<Longrightarrow> hd acc = ''..'' \<Longrightarrow>
   normalizeString True acc ss \<noteq> [] \<and> hd (normalizeString True acc ss) = ''..''"
proof (induction ss arbitrary: acc)
  case Nil then show ?case by simp
next
  case (Cons s ss)
  have up: "butlast acc \<noteq> [] \<and> hd (butlast acc) = ''..''" if "last acc \<noteq> ''..''"
  proof (cases acc)
    case Nil with Cons.prems show ?thesis by simp
  next
    case (Cons a as)
    with Cons.prems(2) that have "as \<noteq> []" by auto
    with Cons Cons.prems(2) show ?thesis by simp
  qed
  have app: "acc @ [x] \<noteq> [] \<and> hd (acc @ [x]) = ''..''" for x
    using Cons.prems by simp
  show ?case
  proof (cases "s = [] \<or> s = ''.''")
    case True
    with Cons.IH[OF Cons.prems] show ?thesis by auto
  next
    case False
    show ?thesis
    proof (cases "s = ''..''")
      case True
      show ?thesis
      proof (cases "last acc \<noteq> ''..''")
        case True
        from up[OF True] have "normalizeString True (butlast acc) ss \<noteq> [] \<and>
            hd (normalizeString True (butlast acc) ss) = ''..''"
          using Cons.IH by blast
        with True \<open>s = ''..''\<close> Cons.prems(1) show ?thesis by simp
      next
        case False
        from app[of "''..''"] have "normalizeString True (acc @ [''..'']) ss \<noteq> [] \<and>
            hd (normalizeString True (acc @ [''..'']) ss) = ''..''"
          using Cons.IH by blast
        with False \<open>s = ''..''\<close> show ?thesis by simp
      qed
    next
      case ns: False
      from app[of s] have "normalizeString True (acc @ [s]) ss \<noteq> [] \<and>
          hd (normalizeString True (acc @ [s]) ss) = ''..''"
        using Cons.IH by blast
      with False ns show ?thesis by simp
    qed
  qed
qed

lemma normalize_within:
  "''..'' \<notin> set acc \<Longrightarrow> ''..'' \<notin> set (normalizeString True acc ss) \<Longrightarrow>
   normalizeString False (res @ acc) ss = res @ normalizeString True acc ss"
proof (induction ss arbitrary: acc)
  case Nil then show ?case by simp
next
  case (Cons s ss)
  show ?case
  proof (cases "s = [] \<or> s = ''.''")
    case True
    with Cons show ?thesis by auto
  next
    case False
    show ?thesis
    proof (cases "s = ''..''")
      case True
      show ?thesis
      proof (cases "acc = []")
        case Nil: True
        from normalize_keeps_leading[of "[''..'']" ss]
        have "''..'' \<in> set (normalizeString True [''..''] ss)"
          by (metis hd_in_set list.sel(1) not_Cons_self2)
        with Cons.prems(2) True Nil show ?thesis by simp
      next
        case ne: False
        from Cons.prems(1) ne have l: "last acc \<noteq> ''..''" by (metis last_in_set)
        from Cons.prems(1) have b: "''..'' \<notin> set (butlast acc)" by (metis in_set_butlastD)
        from Cons.prems(2) True ne l
        have "''..'' \<notin> set (normalizeString True (butlast acc) ss)" by simp
        from Cons.IH[OF b this] True ne l show ?thesis by (simp add: butlast_append)
      qed
    next
      case ns: False
      from Cons.prems(1) ns have a: "''..'' \<notin> set (acc @ [s])" by auto
      from Cons.prems(2) False ns
      have "''..'' \<notin> set (normalizeString True (acc @ [s]) ss)" by simp
      from Cons.IH[OF a this] False ns show ?thesis by simp
    qed
  qed
qed

lemma resolvePath_within:
  assumes "p = [] \<or> hd p \<noteq> slash"
    and "''..'' \<notin> set (normalizeString True [] (split_on slash p))"
  shows "path_segments (resolvePath ev p) =
         path_segments (storeRoot ev) @ normalizeString True [] (split_on slash p)"
  using resolve_segs_relative[OF assms(1), of "cwd ev" "[PROJECT_LOCATION ev]"]
    normalize_within[of "[]" "split_on slash p" "resolve_segs (cwd ev) [PROJECT_LOCATION ev]"]
    assms(2)
  by (simp add: resolvePath_def storeRoot_def)

text \<open>
  C5 (as amended). No resolved path holds a \<open>..\<close> segment. For every relative logical
  path \<open>p\<close> whose normalization holds no \<open>..\<close> segment, \<open>resolvePath p\<close> is the store root
  followed by the normalized segments of \<open>p\<close>: the store root or a location below it,
  strictly below exactly when a segment is left. Nothing is rejected.
\<close>

theorem resolvePath_inside_root:
  "''..'' \<notin> set (path_segments (resolvePath ev p)) \<and>
   ((p = [] \<or> hd p \<noteq> slash) \<and> ''..'' \<notin> set (normalizeString True [] (split_on slash p)) \<longrightarrow>
      path_segments (resolvePath ev p)
        = path_segments (storeRoot ev) @ normalizeString True [] (split_on slash p) \<and>
      inside (storeRoot ev) (resolvePath ev p) \<and>
      (strictly_inside (storeRoot ev) (resolvePath ev p) \<longleftrightarrow>
         normalizeString True [] (split_on slash p) \<noteq> []))"
proof -
  have "clean (path_segments (resolvePath ev p))"
    by (simp add: resolvePath_def resolve_segs_clean)
  then have "''..'' \<notin> set (path_segments (resolvePath ev p))"
    by (auto simp: clean_def)
  moreover have "inside (storeRoot ev) (resolvePath ev p) \<and>
      (strictly_inside (storeRoot ev) (resolvePath ev p) \<longleftrightarrow>
         normalizeString True [] (split_on slash p) \<noteq> [])"
    if "path_segments (resolvePath ev p)
        = path_segments (storeRoot ev) @ normalizeString True [] (split_on slash p)"
    using that by (simp add: inside_def strictly_inside_def)
  ultimately show ?thesis using resolvePath_within[of p ev] by blast
qed

theorem resolvePath_inside_root_witness:
  "resolvePath example_env ''a/../b.txt'' = ''/proj/b.txt'' \<and>
   path_segments (resolvePath example_env ''a/../b.txt'') = [''proj'', ''b.txt''] \<and>
   inside (storeRoot example_env) (resolvePath example_env ''a/../b.txt'') \<and>
   strictly_inside (storeRoot example_env) (resolvePath example_env ''a/../b.txt'') \<and>
   ''..'' \<notin> set (path_segments (resolvePath example_env ''a/../b.txt''))"
proof -
  have h: "(''a/../b.txt'' = [] \<or> hd ''a/../b.txt'' \<noteq> slash) \<and>
           ''..'' \<notin> set (normalizeString True [] (split_on slash ''a/../b.txt''))"
    by code_simp
  have n: "normalizeString True [] (split_on slash ''a/../b.txt'') = [''b.txt'']" by code_simp
  have r: "path_segments (storeRoot example_env) = [''proj'']" by code_simp
  have e: "resolvePath example_env ''a/../b.txt'' = ''/proj/b.txt''" by code_simp
  from resolvePath_inside_root[of example_env "''a/../b.txt''"] h
  have "path_segments (resolvePath example_env ''a/../b.txt'')
        = path_segments (storeRoot example_env) @ normalizeString True [] (split_on slash ''a/../b.txt'')"
    and "inside (storeRoot example_env) (resolvePath example_env ''a/../b.txt'')"
    and "strictly_inside (storeRoot example_env) (resolvePath example_env ''a/../b.txt'') \<longleftrightarrow>
         normalizeString True [] (split_on slash ''a/../b.txt'') \<noteq> []"
    and "''..'' \<notin> set (path_segments (resolvePath example_env ''a/../b.txt''))"
    by blast+
  with n r e show ?thesis by simp
qed

text \<open>
  C5 as stated fails: \<open>path.resolve\<close> follows a \<open>..\<close> segment out of the root and
  nothing rejects the result.
\<close>

theorem resolvePath_escapes_root:
  "resolvePath example_env ''../etc/passwd'' = ''/etc/passwd'' \<and>
   \<not> strictly_inside (storeRoot example_env) (resolvePath example_env ''../etc/passwd'')"
  by (simp add: strictly_inside_def inside_def path_eval)

section \<open>Reading files\<close>

lemma readFile_unwrapped:
  "readFile ev fs p = as_promise (fs_readFile fs (path_segments (resolvePath ev p)))"
  by (simp add: readFile_def fse_readFile_def resolvePath_def)

lemmas store_eval =
  fs_readFile_def fs_access_def stat_def node_at_def as_promise_def example_store_def

text \<open>
  C1. \<open>readFile\<close> on a path with no file should reject with the error of the \<open>catch\<close>
  block, \<open>File ... not found\<close>, and any other read failure with the wrapping \<open>VError\<close>.
  The run below shows what the code does: the system error of \<open>fse.readFile\<close> reaches
  the caller as it is, for the missing file and for the path that is a directory.
\<close>

theorem readFile_rejects_with_raw_system_error:
  "readFile example_env example_store ''missing.txt'' = Rejected (SystemError ENOENT) \<and>
   readFile example_env example_store ''missing.txt''
     \<noteq> Rejected (Error (not_found_message ''missing.txt'')) \<and>
   readFile example_env example_store ''.'' = Rejected (SystemError EISDIR) \<and>
   readFile example_env example_store ''.''
     \<noteq> Rejected (VError (SystemError EISDIR) (read_message ''.''))"
  by (simp add: readFile_unwrapped store_eval path_eval)

section \<open>Revisions cannot be deleted\<close>

text \<open>
  C9. For every path and revision id, \<open>deleteRevision\<close> rejects with the error
  \<open>Method not implemented.\<close> and leaves the store as it was; the error is none of the
  other errors of the driver (a system error, a wrapping \<open>VError\<close>, the not-found error of
  \<open>readFile\<close>), and the call is never fulfilled.
\<close>

theorem deleteRevision_not_implemented:
  "fst (deleteRevision ev fs filePath revision) = fs \<and>
   snd (deleteRevision ev fs filePath revision) = Rejected (Error ''Method not implemented.'') \<and>
   snd (deleteRevision ev fs filePath revision) \<noteq> Fulfilled () \<and>
   snd (deleteRevision ev fs filePath revision) \<noteq> Rejected (SystemError c) \<and>
   snd (deleteRevision ev fs filePath revision) \<noteq> Rejected (VError e m) \<and>
   snd (deleteRevision ev fs filePath revision) \<noteq> Rejected (Error (not_found_message q))"
  by (simp add: deleteRevision_def not_found_message_def)

section \<open>Facts about the file system\<close>

lemma node_at_put:
  "node_at (put fs q n) q' = (if q' = [] then Some Dir else if q' = q then Some n else node_at fs q')"
  by (simp add: node_at_def put_def update_conv')

lemma unreadable_put [simp]: "unreadable (put fs q n) = unreadable fs"
  by (simp add: put_def)

lemma all_less_Suc: "(\<forall>k<Suc n. P k) = (P 0 \<and> (\<forall>k<n. P (Suc k)))"
  by (auto simp: less_Suc_eq_0_disj)

lemma walk_Inr_iff:
  "walk fs pre ss = Inr n \<longleftrightarrow>
   node_at fs (pre @ ss) = Some n \<and> (\<forall>k<length ss. node_at fs (pre @ take k ss) = Some Dir)"
proof (induction ss arbitrary: pre)
  case Nil
  then show ?case by (auto split: option.splits)
next
  case (Cons s ss)
  show ?case using Cons.IH[of "pre @ [s]"]
    by (auto simp: all_less_Suc split: option.splits node.splits)
qed

lemma stat_Inr_iff:
  "stat fs q = Inr n \<longleftrightarrow>
   node_at fs q = Some n \<and> (\<forall>k<length q. node_at fs (take k q) = Some Dir)"
  using walk_Inr_iff[of fs "[]" q n] by (simp add: stat_def)

lemma readFile_Inr_iff:
  "fs_readFile fs q = Inr b \<longleftrightarrow>
   node_at fs q = Some (File b) \<and> (\<forall>k<length q. node_at fs (take k q) = Some Dir)"
  using stat_Inr_iff[of fs q "File b"]
  by (auto simp: fs_readFile_def split: sum.splits node.splits)

lemma walk_absent:
  "node_at fs (pre @ ss) = None \<Longrightarrow> \<not> file_on_way fs pre ss \<Longrightarrow> walk fs pre ss = Inl ENOENT"
proof (induction ss arbitrary: pre)
  case Nil then show ?case by simp
next
  case (Cons s ss)
  then show ?case using Cons.IH[of "pre @ [s]"]
    by (auto split: option.splits node.splits)
qed

lemma stat_absent:
  "node_at fs q = None \<Longrightarrow> \<not> file_on_way fs [] q \<Longrightarrow> stat fs q = Inl ENOENT"
  using walk_absent[of fs "[]" q] by (simp add: stat_def)

section \<open>Listing revisions\<close>

lemma listRevisions_unfold:
  "listRevisions ev fs prefix =
     Fulfilled (case fs_readFile fs (ledger_path ev prefix) of
                  Inl c \<Rightarrow> JArray []
                | Inr b \<Rightarrow> (case JSON_parse ev b of Inl e \<Rightarrow> JArray [] | Inr v \<Rightarrow> v))"
  by (simp add: listRevisions_def readFile_unwrapped ledger_path_def location_def
      as_promise_def split: sum.splits)

lemma node_absent_unreadable: "node_at fs q = None \<Longrightarrow> \<exists>c. fs_readFile fs q = Inl c"
  using readFile_Inr_iff[of fs q] by (cases "fs_readFile fs q") auto

text \<open>
  C8. For every prefix, \<open>listRevisions\<close> is fulfilled, never rejected. It returns the
  empty sequence when there is no ledger at \<open>prefix/revisions.json\<close>, when the ledger
  cannot be read, and when its text does not parse; a ledger that parses to a sequence of
  revisions is returned as that sequence, in its order.
\<close>

theorem listRevisions_degrades_to_empty:
  "(\<exists>v. listRevisions ev fs prefix = Fulfilled v) \<and>
   (node_at fs (ledger_path ev prefix) = None \<longrightarrow>
      listRevisions ev fs prefix = Fulfilled (JArray [])) \<and>
   (\<forall>c. fs_readFile fs (ledger_path ev prefix) = Inl c \<longrightarrow>
      listRevisions ev fs prefix = Fulfilled (JArray [])) \<and>
   (\<forall>b e. fs_readFile fs (ledger_path ev prefix) = Inr b \<and> JSON_parse ev b = Inl e \<longrightarrow>
      listRevisions ev fs prefix = Fulfilled (JArray [])) \<and>
   (\<forall>b revisions.
      fs_readFile fs (ledger_path ev prefix) = Inr b \<and> JSON_parse ev b = Inr (JArray revisions) \<longrightarrow>
      listRevisions ev fs prefix = Fulfilled (JArray revisions))"
  using node_absent_unreadable[of fs "ledger_path ev prefix"]
  by (auto simp: listRevisions_unfold)


lemma example_ledger_path:
  "ledger_path example_env ''a'' = [''proj'', ''a'', ''revisions.json'']"
  by (simp add: ledger_path_def location_def path_join_def path_normalize_def resolvePath_def
      resolve_segs_def slash_def example_env_def)

theorem listRevisions_degrades_to_empty_witness:
  "listRevisions example_env example_store ''a'' = Fulfilled (JArray []) \<and>
   listRevisions example_env corrupt_store ''a'' = Fulfilled (JArray []) \<and>
   listRevisions example_env ledger_store ''a'' = Fulfilled example_revisions"
proof -
  have a: "node_at example_store (ledger_path example_env ''a'') = None"
    by (simp add: example_ledger_path node_at_def example_store_def)
  have b: "fs_readFile corrupt_store (ledger_path example_env ''a'') = Inr (map of_char ''[{'')"
    by (simp add: example_ledger_path fs_readFile_def stat_def node_at_def corrupt_store_def)
  have b': "JSON_parse example_env (map of_char ''[{'') = Inl (Error ''Unexpected token'')"
    by (simp add: example_env_def example_parse_def example_ledger_def)
  have c: "fs_readFile ledger_store (ledger_path example_env ''a'') = Inr (map of_char example_ledger)"
    by (simp add: example_ledger_path fs_readFile_def stat_def node_at_def ledger_store_def)
  have c': "JSON_parse example_env (map of_char example_ledger) = Inr example_revisions"
    by (simp add: example_env_def example_parse_def)
  show ?thesis
    using listRevisions_degrades_to_empty[of example_env example_store "''a''"]
      listRevisions_degrades_to_empty[of example_env corrupt_store "''a''"]
      listRevisions_degrades_to_empty[of example_env ledger_store "''a''"]
      a b b' c c'
    unfolding example_revisions_def by blast
qed

section \<open>Facts about locations\<close>

lemma location_segs: "location ev p = resolve_segs (cwd ev) [PROJECT_LOCATION ev, p]"
  by (simp add: location_def resolvePath_def)

lemma fse_access_location:
  "fse_access ev fs (resolvePath ev folder) = as_promise (fs_access fs (location ev folder))"
  by (simp add: fse_access_def location_segs resolvePath_def)

lemmas location_eval = location_segs resolve_segs_def slash_def example_env_def

section \<open>Facts about writing\<close>

lemma node_at_root [simp]: "node_at fs [] = Some Dir"
  by (simp add: node_at_def)

lemma node_at_put_other: "x \<noteq> q \<Longrightarrow> node_at (put fs q n) x = node_at fs x"
  by (simp add: node_at_put)

lemma node_at_put_same: "q \<noteq> [] \<Longrightarrow> node_at (put fs q n) q = Some n"
  by (simp add: node_at_put)

lemma mkdirs_mono:
  "mkdirs fs pre ss = Inr fs' \<Longrightarrow>
   unreadable fs' = unreadable fs \<and>
   (\<forall>x. node_at fs' x = node_at fs x \<or> (node_at fs x = None \<and> node_at fs' x = Some Dir))"
proof (induction ss arbitrary: fs pre)
  case Nil then show ?case by simp
next
  case (Cons s ss)
  show ?case
  proof (cases "node_at fs (pre @ [s])")
    case None
    let ?g = "put fs (pre @ [s]) Dir"
    from Cons.prems None have m: "mkdirs ?g (pre @ [s]) ss = Inr fs'" by simp
    note ih = Cons.IH[OF m]
    have "node_at fs' x = node_at fs x \<or> (node_at fs x = None \<and> node_at fs' x = Some Dir)"
      for x
    proof (cases "x = pre @ [s]")
      case True
      then have "node_at ?g x = Some Dir" by (simp add: node_at_put_same)
      with ih have "node_at fs' x = Some Dir" by (metis option.distinct(1))
      with None True show ?thesis by simp
    next
      case False
      then have "node_at ?g x = node_at fs x" by (simp add: node_at_put_other)
      with ih show ?thesis by metis
    qed
    with ih show ?thesis by simp
  next
    case (Some n)
    with Cons.prems obtain "n = Dir" "mkdirs fs (pre @ [s]) ss = Inr fs'"
      by (cases n) auto
    with Cons.IH show ?thesis by blast
  qed
qed

lemma wellformed_parent:
  assumes "wellformed fs" "node_at fs q = Some n" "q \<noteq> []"
  shows "node_at fs (butlast q) = Some Dir"
proof -
  from assms(2,3) have "(q, n) \<in> set (entries fs)"
    by (auto simp: node_at_def dest: map_of_SomeD)
  with assms(1,3) show ?thesis by (auto simp: wellformed_def list_all_iff)
qed

lemma wellformed_ancestors:
  "wellformed fs \<Longrightarrow> node_at fs q = Some n \<Longrightarrow> k < length q \<Longrightarrow>
   node_at fs (take k q) = Some Dir"
proof (induction q arbitrary: n k rule: rev_induct)
  case Nil then show ?case by simp
next
  case (snoc x xs)
  from wellformed_parent[OF snoc.prems(1,2)] have p: "node_at fs xs = Some Dir" by simp
  show ?case
  proof (cases "k < length xs")
    case True
    with snoc.IH[OF snoc.prems(1) p] show ?thesis by simp
  next
    case False
    with snoc.prems(3) have "k = length xs" by simp
    with p show ?thesis by simp
  qed
qed

lemma mkdirs_keeps:
  "mkdirs fs pre ss = Inr fs1 \<Longrightarrow> node_at fs x = Some n \<Longrightarrow> node_at fs1 x = Some n"
  using mkdirs_mono[of fs pre ss fs1] by (metis option.distinct(1))

lemma mkdirs_files:
  "mkdirs fs pre ss = Inr fs1 \<Longrightarrow> node_at fs1 x = Some (File b) \<Longrightarrow>
   node_at fs x = Some (File b)"
  using mkdirs_mono[of fs pre ss fs1] by (metis node.distinct(1) option.inject)

lemma mkdirs_readable:
  assumes "wellformed fs" "mkdirs fs pre ss = Inr fs1"
  shows "fs_readFile fs1 L = Inr b \<longleftrightarrow> fs_readFile fs L = Inr b"
proof
  assume "fs_readFile fs1 L = Inr b"
  then have "node_at fs1 L = Some (File b)" by (simp add: readFile_Inr_iff)
  with mkdirs_files[OF assms(2)] have f: "node_at fs L = Some (File b)" by simp
  with wellformed_ancestors[OF assms(1) f] show "fs_readFile fs L = Inr b"
    by (simp add: readFile_Inr_iff)
next
  assume "fs_readFile fs L = Inr b"
  then have a: "node_at fs L = Some (File b)" "\<forall>k<length L. node_at fs (take k L) = Some Dir"
    by (simp_all add: readFile_Inr_iff)
  with mkdirs_keeps[OF assms(2)] show "fs_readFile fs1 L = Inr b"
    by (simp add: readFile_Inr_iff)
qed

lemma writeFile_Inr:
  "fs_writeFile fs q c = Inr fs2 \<Longrightarrow>
   q \<noteq> [] \<and> fs2 = put fs q (File c) \<and> node_at fs q \<noteq> Some Dir \<and> stat fs (butlast q) = Inr Dir"
  by (auto simp: fs_writeFile_def split: if_splits sum.splits node.splits option.splits)

lemma writeFile_readable:
  assumes "fs_writeFile fs1 q c = Inr fs2" "q \<noteq> L"
  shows "fs_readFile fs2 L = Inr b \<longleftrightarrow> fs_readFile fs1 L = Inr b"
proof -
  from writeFile_Inr[OF assms(1)]
  have w: "q \<noteq> []" "fs2 = put fs1 q (File c)" "node_at fs1 q \<noteq> Some Dir" by auto
  have same: "node_at fs2 L = node_at fs1 L"
    using w(2) assms(2) by (simp add: node_at_put_other)
  have q2: "node_at fs2 q = Some (File c)" using w by (simp add: node_at_put_same)
  have other: "node_at fs2 x = node_at fs1 x" if "x \<noteq> q" for x
    using w(2) that by (simp add: node_at_put_other)
  show ?thesis
  proof
    assume "fs_readFile fs2 L = Inr b"
    then have r: "node_at fs2 L = Some (File b)"
      "\<forall>k<length L. node_at fs2 (take k L) = Some Dir" by (simp_all add: readFile_Inr_iff)
    have "node_at fs1 (take k L) = Some Dir" if "k < length L" for k
    proof -
      from r(2) that have d: "node_at fs2 (take k L) = Some Dir" by simp
      with q2 have "take k L \<noteq> q" by auto
      with other d show ?thesis by simp
    qed
    with r(1) same show "fs_readFile fs1 L = Inr b" by (simp add: readFile_Inr_iff)
  next
    assume "fs_readFile fs1 L = Inr b"
    then have r: "node_at fs1 L = Some (File b)"
      "\<forall>k<length L. node_at fs1 (take k L) = Some Dir" by (simp_all add: readFile_Inr_iff)
    have "node_at fs2 (take k L) = Some Dir" if "k < length L" for k
    proof -
      from r(2) that have d: "node_at fs1 (take k L) = Some Dir" by simp
      with w(3) have "take k L \<noteq> q" by auto
      with other d show ?thesis by simp
    qed
    with r(1) same show "fs_readFile fs2 L = Inr b" by (simp add: readFile_Inr_iff)
  qed
qed



lemma upsertFile_unfold:
  "upsertFile ev fs p c rr =
     (case fs_mkdirp fs (resolve_segs (cwd ev) [path_dirname (resolvePath ev p)]) of
        Inl e \<Rightarrow> (fs, Rejected (VError (SystemError e) (upsert_message p)))
      | Inr fs1 \<Rightarrow>
          (case fs_writeFile fs1 (location ev p) (to_buffer ev c) of
             Inl e \<Rightarrow> (fs1, Rejected (VError (SystemError e) (upsert_message p)))
           | Inr fs2 \<Rightarrow> (fs2, Fulfilled ())))"
  by (simp add: upsertFile_def fse_mkdirp_def fse_writeFile_def location_segs resolvePath_def
      Let_def split: sum.splits)


lemma join_snoc: "xs \<noteq> [] \<Longrightarrow> join_with sep (xs @ [s]) = join_with sep xs @ sep @ s"
proof (induction xs)
  case Nil then show ?case by simp
next
  case (Cons x xs)
  then show ?case by (cases xs) auto
qed

lemma join_clean_nonempty:
  assumes "clean xs" "xs \<noteq> []"
  shows "join_with sep xs \<noteq> []"
proof (cases xs)
  case Nil with assms show ?thesis by simp
next
  case (Cons x ys)
  with assms show ?thesis by (cases ys) (auto simp: clean_def)
qed

lemma scan_segment:
  assumes s: "s \<noteq> []" "slash \<notin> set s"
  shows "dirname_scan (c # J @ slash # s) = slash # rev J"
proof -
  from s have hd: "hd (rev s) \<noteq> slash" by (metis hd_rev last_in_set)
  have d1: "dropWhile (\<lambda>c. c = slash) (rev s @ ys) = rev s @ ys" for ys
    using s hd by (cases "rev s") auto
  have d2: "dropWhile (\<lambda>c. c \<noteq> slash) (rev s @ ys) = dropWhile (\<lambda>c. c \<noteq> slash) ys" for ys
    using s by (intro dropWhile_append2) auto
  show ?thesis unfolding dirname_scan_def
    using d1[of "slash # rev J"] d2[of "slash # rev J"] by simp
qed









section \<open>Writing a file and reading it back\<close>

lemma file_on_way_iff:
  "file_on_way g pre ss \<longleftrightarrow> (\<exists>k<length ss. \<exists>b. node_at g (pre @ take k ss) = Some (File b))"
proof (induction ss arbitrary: pre)
  case Nil then show ?case by simp
next
  case (Cons s ss)
  have "(\<exists>k<length (s # ss). \<exists>b. node_at g (pre @ take k (s # ss)) = Some (File b)) \<longleftrightarrow>
        (\<exists>b. node_at g pre = Some (File b)) \<or>
        (\<exists>k<length ss. \<exists>b. node_at g ((pre @ [s]) @ take k ss) = Some (File b))"
    (is "?L \<longleftrightarrow> ?A \<or> ?B")
  proof
    assume ?L
    then obtain k b where k: "k < length (s # ss)" "node_at g (pre @ take k (s # ss)) = Some (File b)"
      by blast
    show "?A \<or> ?B"
    proof (cases k)
      case 0 with k show ?thesis by simp
    next
      case (Suc j) with k show ?thesis by auto
    qed
  next
    assume "?A \<or> ?B"
    then show ?L
    proof
      assume ?A then show ?L by (intro exI[of _ 0]) simp
    next
      assume ?B
      then obtain k b where "k < length ss" "node_at g ((pre @ [s]) @ take k ss) = Some (File b)"
        by blast
      then show ?L by (intro exI[of _ "Suc k"]) simp
    qed
  qed
  with Cons.IH[of "pre @ [s]"] show ?case
    by (auto split: option.splits node.splits)
qed







lemmas run_eval =
  upsertFile_def fse_mkdirp_def fse_writeFile_def fs_mkdirp_def fs_writeFile_def
  resolvePath_def path_resolve_def resolve_segs_def path_dirname_def dirname_scan_def
  slash_def stat_def node_at_def put_def example_env_def example_store_def Let_def

section \<open>Listing a folder that is absent or cannot be read\<close>

lemma walk_through_file:
  "k < length ss \<Longrightarrow> node_at fs (pre @ take k ss) = Some (File b) \<Longrightarrow>
   \<forall>j<k. node_at fs (pre @ take j ss) = Some Dir \<Longrightarrow> walk fs pre ss = Inl ENOTDIR"
proof (induction ss arbitrary: pre k)
  case Nil then show ?case by simp
next
  case (Cons s ss)
  show ?case
  proof (cases k)
    case 0
    with Cons.prems(2) show ?thesis by simp
  next
    case (Suc k')
    with Cons.prems(3) have "node_at fs (pre @ take 0 (s # ss)) = Some Dir" by blast
    then have here: "node_at fs pre = Some Dir" by simp
    from Suc Cons.prems(1) have 1: "k' < length ss" by simp
    from Suc Cons.prems(2) have 2: "node_at fs ((pre @ [s]) @ take k' ss) = Some (File b)" by simp
    have 3: "\<forall>j<k'. node_at fs ((pre @ [s]) @ take j ss) = Some Dir"
    proof (intro allI impI)
      fix j assume "j < k'"
      with Suc have "Suc j < k" by simp
      with Cons.prems(3) have "node_at fs (pre @ take (Suc j) (s # ss)) = Some Dir" by blast
      then show "node_at fs ((pre @ [s]) @ take j ss) = Some Dir" by simp
    qed
    from Cons.IH[OF 1 2 3] here show ?thesis by simp
  qed
qed

lemma stat_through_file:
  assumes "wellformed fs" "file_on_way fs [] q"
  shows "stat fs q = Inl ENOTDIR"
proof -
  from assms(2) obtain k b where k: "k < length q" "node_at fs (take k q) = Some (File b)"
    unfolding file_on_way_iff by auto
  have "\<forall>j<k. node_at fs ([] @ take j q) = Some Dir"
  proof (intro allI impI)
    fix j assume j: "j < k"
    with k(1) have "j < length (take k q)" by simp
    from wellformed_ancestors[OF assms(1) k(2) this] j show "node_at fs ([] @ take j q) = Some Dir"
      by (simp add: min_def)
  qed
  with walk_through_file[of k q fs "[]" b] k show ?thesis by (simp add: stat_def)
qed

text \<open>
  C6 (as amended). For every folder whose lookup reports \<open>ENOENT\<close>, as it does when
  there is no entry at its location and no regular file on the way, \<open>directoryListing\<close>
  returns the empty sequence. A folder whose path runs through a regular file does not
  exist either, and the call is rejected: with any code but \<open>ENOENT\<close> the failure of the
  access check is rejected with the wrapping error \<open>No read access to directory\<close>, and so
  is a directory that exists and cannot be read. A failure of \<open>glob\<close> gives the empty
  sequence.
\<close>

theorem directoryListing_absent_unreadable_glob_failure:
  "(stat fs (location ev folder) = Inl ENOENT \<longrightarrow>
      directoryListing ev fs folder exclude includeDotFiles = Fulfilled []) \<and>
   (node_at fs (location ev folder) = None \<and> \<not> file_on_way fs [] (location ev folder) \<longrightarrow>
      directoryListing ev fs folder exclude includeDotFiles = Fulfilled []) \<and>
   (wellformed fs \<and> file_on_way fs [] (location ev folder) \<longrightarrow>
      directoryListing ev fs folder exclude includeDotFiles
        = Rejected (VError (SystemError ENOTDIR) (access_message folder))) \<and>
   (\<forall>c. fs_access fs (location ev folder) = Inl c \<and> c \<noteq> ENOENT \<longrightarrow>
      directoryListing ev fs folder exclude includeDotFiles
        = Rejected (VError (SystemError c) (access_message folder))) \<and>
   (stat fs (location ev folder) = Inr Dir \<and> location ev folder \<in> set (unreadable fs) \<longrightarrow>
      directoryListing ev fs folder exclude includeDotFiles
        = Rejected (VError (SystemError EACCES) (access_message folder))) \<and>
   (\<forall>e. fs_access fs (location ev folder) = Inr () \<and> glob_error ev = Some e \<longrightarrow>
      directoryListing ev fs folder exclude includeDotFiles = Fulfilled [])"
proof -
  have 1: "directoryListing ev fs folder exclude includeDotFiles = Fulfilled []"
    if "stat fs (location ev folder) = Inl ENOENT"
    using that
    by (simp add: directoryListing_def fse_access_location fs_access_def as_promise_def)
  have 3: "directoryListing ev fs folder exclude includeDotFiles
        = Rejected (VError (SystemError c) (access_message folder))"
    if "fs_access fs (location ev folder) = Inl c" "c \<noteq> ENOENT" for c
    using that by (simp add: directoryListing_def fse_access_location as_promise_def)
  have 2: "fs_access fs (location ev folder) = Inl ENOTDIR"
    if "wellformed fs" "file_on_way fs [] (location ev folder)"
    using stat_through_file[OF that] by (simp add: fs_access_def)
  have 4: "fs_access fs (location ev folder) = Inl EACCES"
    if "stat fs (location ev folder) = Inr Dir" "location ev folder \<in> set (unreadable fs)"
    using that by (simp add: fs_access_def)
  have 5: "directoryListing ev fs folder exclude includeDotFiles = Fulfilled []"
    if "fs_access fs (location ev folder) = Inr ()" "glob_error ev = Some e" for e
    using that
    by (simp add: directoryListing_def fse_access_location as_promise_def glob_def)
  have 6: "ENOTDIR \<noteq> ENOENT" "EACCES \<noteq> ENOENT" by simp_all
  show ?thesis using 1 2 3 4 5 6 stat_absent[of fs "location ev folder"] by blast
qed

theorem directoryListing_absent_unreadable_glob_failure_witness:
  "directoryListing example_env example_store ''never/created'' None False = Fulfilled [] \<and>
   directoryListing example_env source_store ''src/b.txt/sub'' None False
     = Rejected (VError (SystemError ENOTDIR) (access_message ''src/b.txt/sub'')) \<and>
   directoryListing example_env locked_store ''secret'' None False
     = Rejected (VError (SystemError EACCES) (access_message ''secret'')) \<and>
   directoryListing example_env source_store ''src'' None False
     = Fulfilled [''b.txt'', ''notes.''] \<and>
   directoryListing failing_glob_env source_store ''src'' None False = Fulfilled []"
proof -
  have a: "stat example_store (location example_env ''never/created'') = Inl ENOENT"
    by code_simp
  have n: "wellformed source_store \<and>
           file_on_way source_store [] (location example_env ''src/b.txt/sub'')"
    by code_simp
  have b: "stat locked_store (location example_env ''secret'') = Inr Dir \<and>
           location example_env ''secret'' \<in> set (unreadable locked_store)"
    by code_simp
  have c: "fs_access source_store (location failing_glob_env ''src'') = Inr () \<and>
           glob_error failing_glob_env = Some (Error ''aborted'')"
    by code_simp
  have l: "directoryListing example_env source_store ''src'' None False
             = Fulfilled [''b.txt'', ''notes.'']" by code_simp
  note t1 = directoryListing_absent_unreadable_glob_failure
              [of example_store example_env "''never/created''" None False]
  note t2 = directoryListing_absent_unreadable_glob_failure
              [of source_store example_env "''src/b.txt/sub''" None False]
  note t3 = directoryListing_absent_unreadable_glob_failure
              [of locked_store example_env "''secret''" None False]
  note t4 = directoryListing_absent_unreadable_glob_failure
              [of source_store failing_glob_env "''src''" None False]
  from t1[THEN conjunct1] a
  have 1: "directoryListing example_env example_store ''never/created'' None False = Fulfilled []"
    by (rule mp)
  from t2[THEN conjunct2, THEN conjunct2, THEN conjunct1] n
  have 2: "directoryListing example_env source_store ''src/b.txt/sub'' None False
             = Rejected (VError (SystemError ENOTDIR) (access_message ''src/b.txt/sub''))"
    by (rule mp)
  from t3[THEN conjunct2, THEN conjunct2, THEN conjunct2, THEN conjunct2, THEN conjunct1] b
  have 3: "directoryListing example_env locked_store ''secret'' None False
             = Rejected (VError (SystemError EACCES) (access_message ''secret''))"
    by (rule mp)
  from t4[THEN conjunct2, THEN conjunct2, THEN conjunct2, THEN conjunct2, THEN conjunct2] c
  have 4: "directoryListing failing_glob_env source_store ''src'' None False = Fulfilled []"
    by blast
  from 1 2 3 l 4 show ?thesis by (intro conjI)
qed

text \<open>
  C6 as stated fails: nothing exists at \<open>src/b.txt/sub\<close>, since \<open>src/b.txt\<close> is a regular
  file, and listing that folder is rejected: the lookup reports \<open>ENOTDIR\<close>, and only
  \<open>ENOENT\<close> is turned into the empty sequence.
\<close>

theorem directoryListing_below_a_file_is_rejected:
  "node_at source_store (location example_env ''src/b.txt/sub'') = None \<and>
   node_at source_store (location example_env ''src/b.txt'') = Some (File [8, 9]) \<and>
   directoryListing example_env source_store ''src/b.txt/sub'' None False
     = Rejected (VError (SystemError ENOTDIR) (access_message ''src/b.txt/sub'')) \<and>
   directoryListing example_env source_store ''src/b.txt/sub'' None False \<noteq> Fulfilled []"
  by code_simp

section \<open>Upserting with \<open>recordRevision\<close>\<close>

lemma upsertFile_ignores_recordRevision:
  "upsertFile ev fs p c True = upsertFile ev fs p c False"
  by (simp add: upsertFile_def)

lemma upsertFile_readable_elsewhere:
  assumes wf: "wellformed fs" and ne: "location ev p \<noteq> L"
  shows "fs_readFile (fst (upsertFile ev fs p c rr)) L = Inr b \<longleftrightarrow> fs_readFile fs L = Inr b"
proof (cases "fs_mkdirp fs (resolve_segs (cwd ev) [path_dirname (resolvePath ev p)])")
  case (Inl e)
  then show ?thesis by (simp add: upsertFile_unfold)
next
  case (Inr fs1)
  then have m: "fs_readFile fs1 L = Inr b \<longleftrightarrow> fs_readFile fs L = Inr b"
    using mkdirs_readable[OF wf] by (simp add: fs_mkdirp_def)
  show ?thesis
  proof (cases "fs_writeFile fs1 (location ev p) (to_buffer ev c)")
    case (Inl e)
    with Inr m show ?thesis by (simp add: upsertFile_unfold)
  next
    case (Inr fs2)
    from writeFile_readable[OF Inr ne] m \<open>fs_mkdirp fs _ = Inr fs1\<close> Inr
    show ?thesis by (simp add: upsertFile_unfold)
  qed
qed

text \<open>
  C3 (as amended). \<open>upsertFile\<close> does not use \<open>recordRevision\<close>: with \<open>true\<close> it does
  what it does with \<open>false\<close>, and no revision is recorded. In a well-formed store, for
  every prefix whose ledger is not the file written, \<open>listRevisions\<close> returns after the
  upsert what it returned before.
\<close>

theorem upsertFile_records_no_revision:
  assumes "wellformed fs" and "location ev p \<noteq> ledger_path ev prefix"
  shows "upsertFile ev fs p c True = upsertFile ev fs p c False \<and>
         listRevisions ev (fst (upsertFile ev fs p c True)) prefix = listRevisions ev fs prefix"
proof -
  let ?fs' = "fst (upsertFile ev fs p c True)"
  let ?L = "ledger_path ev prefix"
  have r: "fs_readFile ?fs' ?L = Inr b \<longleftrightarrow> fs_readFile fs ?L = Inr b" for b
    by (rule upsertFile_readable_elsewhere[OF assms])
  have "listRevisions ev ?fs' prefix = listRevisions ev fs prefix"
  proof (cases "fs_readFile fs ?L")
    case (Inl c1)
    with r have "\<exists>c2. fs_readFile ?fs' ?L = Inl c2"
      by (cases "fs_readFile ?fs' ?L") auto
    with Inl show ?thesis by (auto simp: listRevisions_unfold)
  next
    case (Inr b)
    with r have "fs_readFile ?fs' ?L = Inr b" by simp
    with Inr show ?thesis by (simp add: listRevisions_unfold)
  qed
  then show ?thesis by (simp add: upsertFile_ignores_recordRevision)
qed

theorem upsertFile_records_no_revision_witness:
  "upsertFile example_env ledger_store ''a/x.txt'' (Buf [1]) True
     = upsertFile example_env ledger_store ''a/x.txt'' (Buf [1]) False \<and>
   listRevisions example_env
     (fst (upsertFile example_env ledger_store ''a/x.txt'' (Buf [1]) True)) ''a''
     = Fulfilled example_revisions"
proof -
  have w: "wellformed ledger_store"
    by (simp add: wellformed_def node_at_def ledger_store_def)
  have n: "location example_env ''a/x.txt'' \<noteq> ledger_path example_env ''a''"
    by (simp add: example_ledger_path) (simp add: location_eval)
  have r: "fs_readFile ledger_store (ledger_path example_env ''a'') = Inr (map of_char example_ledger)"
    by (simp add: example_ledger_path fs_readFile_def stat_def node_at_def ledger_store_def)
  have "JSON_parse example_env (map of_char example_ledger) = Inr example_revisions"
    by (simp add: example_env_def example_parse_def)
  with r have lr: "listRevisions example_env ledger_store ''a'' = Fulfilled example_revisions"
    by (simp add: listRevisions_unfold)
  note t = upsertFile_records_no_revision[OF w n, of "Buf [1]"]
  from t have a: "upsertFile example_env ledger_store ''a/x.txt'' (Buf [1]) True
     = upsertFile example_env ledger_store ''a/x.txt'' (Buf [1]) False"
    by (rule conjunct1)
  from t have "listRevisions example_env
     (fst (upsertFile example_env ledger_store ''a/x.txt'' (Buf [1]) True)) ''a''
     = listRevisions example_env ledger_store ''a''"
    by (rule conjunct2)
  with lr have b: "listRevisions example_env
     (fst (upsertFile example_env ledger_store ''a/x.txt'' (Buf [1]) True)) ''a''
     = Fulfilled example_revisions"
    by simp
  from a b show ?thesis by (rule conjI)
qed

text \<open>
  C3 as stated fails: after an upsert with \<open>recordRevision = true\<close> into the empty store,
  \<open>listRevisions\<close> of the enclosing prefix is still empty.
\<close>

theorem upsertFile_recordRevision_appends_nothing:
  "listRevisions example_env
     (fst (upsertFile example_env example_store ''a/x.txt'' (Buf [1]) True)) ''a''
     = Fulfilled (JArray [])"
proof -
  have "fst (upsertFile example_env example_store ''a/x.txt'' (Buf [1]) True)
        = \<lparr>entries = [([''proj''], Dir), ([''proj'', ''a''], Dir),
                        ([''proj'', ''a'', ''x.txt''], File [1])],
             unreadable = []\<rparr>"
    by (simp add: run_eval)
  then show ?thesis
    by (simp add: listRevisions_unfold example_ledger_path fs_readFile_def stat_def node_at_def)
qed

section \<open>What a listing holds\<close>

lemma under_Some_iff: "under base q = Some rel \<longleftrightarrow> q = base @ rel \<and> rel \<noteq> []"
  by (auto simp: under_def) (metis append_take_drop_id)

lemma set_map_filter_iff:
  "y \<in> set (List.map_filter g xs) \<longleftrightarrow> (\<exists>x\<in>set xs. g x = Some y)"
  by (induction xs) (auto split: option.splits)

lemma candidates_iff:
  "rel \<in> set (List.map_filter (under base) (remdups (map fst (entries fs)))) \<longleftrightarrow>
   rel \<noteq> [] \<and> base @ rel \<in> fst ` set (entries fs)"
  by (auto simp: set_map_filter_iff under_Some_iff)

lemma glob_matches_iff:
  "rel \<in> set (glob_matches ev fs opts) \<longleftrightarrow>
   rel \<noteq> [] \<and> resolve_segs (cwd ev) [cwd_option opts] @ rel \<in> fst ` set (entries fs) \<and>
   reachable fs (resolve_segs (cwd ev) [cwd_option opts]) rel \<and> glob_match (dot opts) rel \<and>
   \<not> ignored ev (ignore opts) (join_with [slash] rel)"
  by (auto simp: glob_matches_def Let_def candidates_iff)

lemma tidy_key:
  "tidy fs \<Longrightarrow> base @ rel \<in> fst ` set (entries fs) \<Longrightarrow> clean rel \<and> list_all plain rel"
  by (fastforce simp: tidy_def list_all_iff clean_def)

lemma basename_segment:
  assumes s: "s \<noteq> []" "slash \<notin> set s"
  shows "path_basename (J @ slash # s) = s" and "path_basename s = s"
proof -
  from s have hd: "hd (rev s) \<noteq> slash" by (metis hd_rev last_in_set)
  have d1: "dropWhile (\<lambda>c. c = slash) (rev s @ ys) = rev s @ ys" for ys
    using s hd by (cases "rev s") auto
  have ns: "\<And>x. x \<in> set (rev s) \<Longrightarrow> x \<noteq> slash" using s by auto
  have t1: "takeWhile (\<lambda>c. c \<noteq> slash) (rev s @ slash # ys) = rev s" for ys
    using takeWhile_append2[of "rev s" "\<lambda>c. c \<noteq> slash" "slash # ys", OF ns] by simp
  have t2: "takeWhile (\<lambda>c. c \<noteq> slash) (rev s) = rev s"
    using ns by (simp only: takeWhile_eq_all_conv) blast
  have "rev (J @ slash # s) = rev s @ slash # rev J" by simp
  then show "path_basename (J @ slash # s) = s"
    unfolding path_basename_def by (simp only: d1 t1 rev_rev_ident)
  have "dropWhile (\<lambda>c. c = slash) (rev s) = rev s" using d1[of "[]"] by simp
  then show "path_basename s = s"
    unfolding path_basename_def by (simp only: t2 rev_rev_ident)
qed

lemma basename_join:
  assumes "rel \<noteq> []" "clean rel"
  shows "path_basename (join_with [slash] rel) = last rel"
proof (cases rel rule: rev_cases)
  case Nil with assms show ?thesis by simp
next
  case (snoc xs s)
  with assms have s: "s \<noteq> []" "slash \<notin> set s" by (auto simp: clean_def)
  show ?thesis
  proof (cases "xs = []")
    case True
    with snoc basename_segment(2)[OF s] show ?thesis by simp
  next
    case False
    then have "join_with [slash] (xs @ [s]) = join_with [slash] xs @ slash # s"
      by (simp add: join_snoc)
    with snoc basename_segment(1)[OF s] show ?thesis by simp
  qed
qed

lemma plain_join: "list_all plain rel \<Longrightarrow> plain (join_with [slash] rel)"
proof (induction rel)
  case Nil then show ?case by (simp add: plain_def)
next
  case (Cons s rel)
  then show ?case by (cases rel) (auto simp: plain_def slash_def)
qed

lemma forceForwardSlashes_plain: "plain x \<Longrightarrow> forceForwardSlashes x = x"
  by (induction x) (auto simp: forceForwardSlashes_def plain_def)

lemma set_insert_sorted [simp]: "set (insert_sorted le x xs) = insert x (set xs)"
  by (induction xs) auto

lemma set_alphasort [simp]: "set (alphasort le xs) = set xs"
  by (induction xs) (simp_all add: alphasort_def)

lemma glob_listing_dotted:
  assumes "tidy fs"
    "x \<in> set (map forceForwardSlashes
                (alphasort le (map (join_with [slash]) (glob_matches ev fs opts))))"
  shows "dotted (path_basename x)"
proof -
  from assms(2) have
    "x \<in> (\<lambda>rel. forceForwardSlashes (join_with [slash] rel)) ` set (glob_matches ev fs opts)"
    by (simp add: image_image)
  then obtain rel where r: "rel \<in> set (glob_matches ev fs opts)"
    "x = forceForwardSlashes (join_with [slash] rel)" by blast
  from r(1) have m: "rel \<noteq> []" "glob_match (dot opts) rel"
    "resolve_segs (cwd ev) [cwd_option opts] @ rel \<in> fst ` set (entries fs)"
    by (simp_all add: glob_matches_iff)
  from tidy_key[OF assms(1) m(3)] have c: "clean rel" "list_all plain rel" by simp_all
  from r(2) c(2) have "x = join_with [slash] rel"
    by (simp add: forceForwardSlashes_plain plain_join)
  with basename_join[OF m(1) c(1)] m(2) show ?thesis by (simp add: glob_match_def)
qed



lemma directoryListing_Fulfilled:
  "directoryListing ev fs folder exclude includeDotFiles = Fulfilled files \<Longrightarrow>
   files = [] \<or>
   files = map forceForwardSlashes (alphasort (locale_le ev) (map (join_with [slash])
      (glob_matches ev fs \<lparr>cwd_option = resolvePath ev folder, dot = includeDotFiles,
                             ignore = ignore_option exclude\<rparr>)))"
  by (auto simp: directoryListing_def glob_def Let_def
      split: sum.splits if_splits option.splits promise.splits)

lemma extractArchive_Fulfilled:
  "extractArchive ev fs archive destination = (fs', Fulfilled files) \<Longrightarrow>
   files = map forceForwardSlashes (alphasort (locale_le ev) (map (join_with [slash])
      (glob_matches ev fs' \<lparr>cwd_option = destination, dot = False, ignore = None\<rparr>)))"
  by (auto simp: extractArchive_def glob_def Let_def
      split: sum.splits if_splits option.splits promise.splits prod.splits)

text \<open>
  C10 (as amended). In a store whose names hold no backslash, every entry that
  \<open>directoryListing\<close> returns, and every entry of the listing that \<open>extractArchive\<close>
  returns, has a base name with a \<open>.\<close> in it; so a file whose name has no \<open>.\<close> is on
  disk and is absent from the sequence returned. The \<open>.\<close> may be the last character
  of the name.
\<close>

theorem listings_hold_dotted_names_only:
  "(tidy fs \<and> directoryListing ev fs folder exclude includeDotFiles = Fulfilled files \<longrightarrow>
      (\<forall>x\<in>set files. dotted (path_basename x)) \<and>
      (\<forall>f. \<not> dotted (path_basename f) \<longrightarrow> f \<notin> set files)) \<and>
   (tidy fs' \<and> extractArchive ev fs0 archive destination = (fs', Fulfilled extracted) \<longrightarrow>
      (\<forall>x\<in>set extracted. dotted (path_basename x)) \<and>
      (\<forall>f. \<not> dotted (path_basename f) \<longrightarrow> f \<notin> set extracted))"
proof -
  have a: "\<forall>x\<in>set files. dotted (path_basename x)"
    if "tidy fs" "directoryListing ev fs folder exclude includeDotFiles = Fulfilled files"
    using directoryListing_Fulfilled[OF that(2)] glob_listing_dotted[OF that(1)] by auto
  have b: "\<forall>x\<in>set extracted. dotted (path_basename x)"
    if "tidy fs'" "extractArchive ev fs0 archive destination = (fs', Fulfilled extracted)"
    using extractArchive_Fulfilled[OF that(2)] glob_listing_dotted[OF that(1)] by auto
  from a b show ?thesis by blast
qed


theorem listings_hold_dotted_names_only_witness:
  "node_at source_store (location example_env ''src/README'') = Some (File [7]) \<and>
   directoryListing example_env source_store ''src'' None False
     = Fulfilled [''b.txt'', ''notes.''] \<and>
   ''README'' \<notin> set [''b.txt'', ''notes.''] \<and>
   extractArchive example_env example_store example_archive ''dest''
     = (extracted_store, Fulfilled [''b.txt'']) \<and>
   node_at extracted_store (location example_env ''dest/README'') = Some (File [7]) \<and>
   ''README'' \<notin> set [''b.txt'']"
proof -
  have t1: "tidy source_store" by code_simp
  have t2: "tidy extracted_store" by code_simp
  have l: "directoryListing example_env source_store ''src'' None False
             = Fulfilled [''b.txt'', ''notes.'']" by code_simp
  have x: "extractArchive example_env example_store example_archive ''dest''
             = (extracted_store, Fulfilled [''b.txt''])" by code_simp
  have n: "\<not> dotted (path_basename ''README'')" by code_simp
  have e1: "node_at source_store (location example_env ''src/README'') = Some (File [7])"
    by code_simp
  have e2: "node_at extracted_store (location example_env ''dest/README'') = Some (File [7])"
    by code_simp
  note t = listings_hold_dotted_names_only
             [of source_store example_env "''src''" None False "[''b.txt'', ''notes.'']"
                 extracted_store example_store example_archive "''dest''" "[''b.txt'']"]
  from t t1 l n have "''README'' \<notin> set [''b.txt'', ''notes.'']" by blast
  moreover from t t2 x n have "''README'' \<notin> set [''b.txt'']" by blast
  ultimately show ?thesis using l x e1 e2 by blast
qed

text \<open>
  C10 as stated fails: the file \<open>notes.\<close>, whose \<open>.\<close> is followed by no character, is
  listed, since \<open>*.*\<close> matches it.
\<close>

theorem listing_holds_name_ending_in_dot:
  "directoryListing example_env source_store ''src'' None False
     = Fulfilled [''b.txt'', ''notes.''] \<and>
   \<not> dot_then_char (path_basename ''notes.'')"
  by code_simp

section \<open>Trackable folders\<close>

lemma set_uniq_from: "set (uniq_from seen xs) = set xs - set seen"
  by (induction xs arbitrary: seen) auto

lemma set_uniq [simp]: "set (uniq xs) = set xs"
  by (simp add: uniq_def set_uniq_from)

lemma set_without [simp]: "set (without xs vs) = set xs - set vs"
  by (auto simp: without_def)

lemma hd_join: "xs \<noteq> [] \<Longrightarrow> hd xs \<noteq> [] \<Longrightarrow> hd (join_with sep xs) = hd (hd xs)"
proof (cases xs)
  case Nil
  assume "xs \<noteq> []" with Nil show ?thesis by simp
next
  case (Cons x ys)
  assume "hd xs \<noteq> []"
  with Cons show ?thesis by (cases ys) auto
qed

lemma dirname_rel:
  assumes "clean rel" "2 \<le> length rel"
  shows "path_dirname (join_with [slash] rel) = join_with [slash] (butlast rel)"
proof -
  from assms(2) obtain xs s where rel: "rel = xs @ [s]" "xs \<noteq> []"
    by (cases rel rule: rev_cases) (auto simp: Suc_le_eq)
  with assms(1) have s: "s \<noteq> []" "slash \<notin> set s" and cx: "clean xs"
    by (auto simp: clean_def)
  define J where "J = join_with [slash] xs"
  have ne: "J \<noteq> []" unfolding J_def by (rule join_clean_nonempty[OF cx rel(2)])
  then obtain c J' where J: "J = c # J'" by (cases J) auto
  have "hd xs \<noteq> []" "slash \<notin> set (hd xs)" using cx rel(2) by (auto simp: clean_def)
  moreover have "hd J = hd (hd xs)" unfolding J_def using rel(2) \<open>hd xs \<noteq> []\<close>
    by (rule hd_join)
  ultimately have c: "c \<noteq> slash" using J by (metis hd_in_set list.sel(1))
  have j: "join_with [slash] rel = c # J' @ slash # s"
    using rel by (simp add: join_snoc J_def[symmetric] J)
  have "path_dirname (c # J' @ slash # s) = c # J'"
    using c by (simp add: path_dirname_def scan_segment[OF s])
  with j J show ?thesis by (simp add: rel J_def)
qed


lemma drop_common_Nil: "drop_common [] ys = ([], ys)"
  by (cases ys) auto

lemma drop_common_prefix: "drop_common c (c @ rel) = ([], rel)"
  by (induction c) (auto simp: drop_common_Nil)

lemma join_relative:
  assumes "clean rel" "rel \<noteq> []"
  shows "join_with [slash] rel \<noteq> []" and "hd (join_with [slash] rel) \<noteq> slash"
proof -
  from assms have h: "hd rel \<noteq> []" "slash \<notin> set (hd rel)" by (auto simp: clean_def)
  show "join_with [slash] rel \<noteq> []" by (rule join_clean_nonempty[OF assms])
  from hd_join[OF assms(2) h(1)] h show "hd (join_with [slash] rel) \<noteq> slash"
    by (metis hd_in_set)
qed

lemma resolve_relative_join:
  assumes "clean rel" "rel \<noteq> []"
  shows "resolve_segs wd [join_with [slash] rel] = resolve_segs wd [] @ rel"
proof -
  have "resolve_segs wd ([] @ [join_with [slash] rel]) =
        normalizeString False (resolve_segs wd []) (split_on slash (join_with [slash] rel))"
    by (rule resolve_segs_relative) (simp add: join_relative[OF assms])
  moreover have "split_on slash (join_with [slash] rel) = rel"
    using assms by (intro split_join) (auto simp: clean_def)
  ultimately show ?thesis using clean_normalize_id[OF assms(1)] by simp
qed

lemma relative_from_cwd:
  assumes wd: "wd \<noteq> []" "hd wd = slash" and rel: "clean rel" "rel \<noteq> []"
  shows "path_relative wd wd (join_with [slash] rel) = join_with [slash] rel"
proof -
  have ne: "wd \<noteq> join_with [slash] rel" using join_relative(2)[OF rel] wd(2) by auto
  have "resolve_segs wd [wd] = resolve_segs wd []" using wd by (simp add: resolve_segs_def)
  then have "drop_common (resolve_segs wd [wd]) (resolve_segs wd [join_with [slash] rel]) = ([], rel)"
    by (simp add: resolve_relative_join[OF rel] drop_common_prefix)
  with ne show ?thesis by (simp add: path_relative_def)
qed

lemma top_of_join:
  assumes wd: "cwd ev \<noteq> []" "hd (cwd ev) = slash" "PROJECT_LOCATION ev = cwd ev"
    and rel: "clean rel" "2 \<le> length rel"
  shows "hd (split_on slash (path_dirname
           (path_relative (cwd ev) (PROJECT_LOCATION ev) (join_with [slash] rel)))) = hd rel"
proof -
  from rel(2) have ne: "rel \<noteq> []" "butlast rel \<noteq> []" by (auto simp: butlast_conv_take)
  have cb: "clean (butlast rel)" by (rule clean_butlast[OF rel(1)])
  have "split_on slash (join_with [slash] (butlast rel)) = butlast rel"
    using cb ne(2) by (intro split_join) (auto simp: clean_def)
  moreover have "hd (butlast rel) = hd rel" using ne by (cases rel) auto
  ultimately show ?thesis
    by (simp add: wd(3) relative_from_cwd[OF wd(1,2) rel(1) ne(1)] dirname_rel[OF rel])
qed

lemma lower_char_fixed: "lower_char c = d \<Longrightarrow> \<not> (97 \<le> (of_char d :: nat) \<and> (of_char d :: nat) \<le> 122) \<Longrightarrow> c = d"
proof -
  assume a: "lower_char c = d" and b: "\<not> (97 \<le> (of_char d :: nat) \<and> (of_char d :: nat) \<le> 122)"
  show "c = d"
  proof (cases "65 \<le> (of_char c :: nat) \<and> (of_char c :: nat) \<le> 90")
    case False
    with a show ?thesis by (simp add: lower_char_def Let_def)
  next
    case True
    with a have "d = char_of (of_char c + 32 :: nat)" by (simp add: lower_char_def Let_def)
    then have "(of_char d :: nat) = (of_char c + 32) mod 256" by simp
    with True have "(of_char d :: nat) = of_char c + 32" by simp
    with True b show ?thesis by simp
  qed
qed



lemma readable_way_all: "unreadable fs = [] \<Longrightarrow> readable_way fs pre ss"
  by (induction ss arbitrary: pre) auto

lemma below_iff:
  "rel \<in> set (below fs base) \<longleftrightarrow>
   rel \<noteq> [] \<and> base @ rel \<in> fst ` set (entries fs) \<and> exists_node fs (base @ rel)"
  by (auto simp: below_def candidates_iff)

lemma glob_matches_below:
  assumes "unreadable fs = []"
  shows "rel \<in> set (glob_matches ev fs \<lparr>cwd_option = resolvePath ev folder, dot = True, ignore = None\<rparr>)
         \<longleftrightarrow> rel \<in> set (below fs (location ev folder)) \<and> dotted (last rel)"
  using readable_way_all[OF assms]
  by (auto simp: glob_matches_iff below_iff reachable_def glob_match_def ignored_def location_segs
      resolvePath_def)

lemma marker_name:
  assumes "toLowerCase m = ''.noghost''"
  shows "m \<noteq> []" "m \<noteq> ''.''" "m \<noteq> ''..''" "slash \<notin> set m" "plain m" "dotted m"
proof -
  have "length (toLowerCase m) = length m" by (simp add: toLowerCase_def)
  with assms have len: "length m = 8" by simp
  then show "m \<noteq> []" "m \<noteq> ''.''" "m \<noteq> ''..''" by auto
  have low: "lower_char c \<in> set ''.noghost''" if "c \<in> set m" for c
    using that assms by (metis image_eqI set_map toLowerCase_def)
  have "lower_char slash = slash" by (simp add: lower_char_def slash_def)
  with low[of slash] show "slash \<notin> set m" by (auto simp: slash_def)
  have "lower_char (CHR 0x5C) = CHR 0x5C" by (simp add: lower_char_def)
  with low[of "CHR 0x5C"] show "plain m" by (auto simp: plain_def)
  from len obtain c m' where m: "m = c # m'" by (cases m) auto
  with assms have "lower_char c = CHR ''.''" by (simp add: toLowerCase_def)
  then have "c = CHR ''.''" by (rule lower_char_fixed) simp
  with m show "dotted m" by (simp add: dotted_def)
qed


lemma marker_tree_props:
  assumes t: "rel \<in> set (marker_tree ds m)"
    and ds: "clean ds" "list_all plain ds" and m: "toLowerCase m = ''.noghost''"
  shows "clean rel" "list_all plain rel"
    "dotted (last rel) \<Longrightarrow> 2 \<le> length rel \<and> (hd rel = ''a'' \<or> hd rel = ''b'') \<and>
       (hd rel = ''a'' \<longrightarrow> rel = [''a'', ''x.txt''])"
proof -
  note mn = marker_name[OF m]
  have sub: "set (take k ds) \<subseteq> set ds" for k by (rule set_take_subset)
  from t consider "rel = [''a'']" | "rel = [''a'', ''x.txt'']" | "rel = [''b'']"
    | "rel = [''b'', ''y.txt'']" | k where "1 \<le> k" "k \<le> length ds" "rel = ''b'' # take k ds"
    | "rel = ''b'' # ds @ [m]"
    by (auto simp: marker_tree_def)
  then have "clean rel \<and> list_all plain rel \<and>
    (dotted (last rel) \<longrightarrow> 2 \<le> length rel \<and> (hd rel = ''a'' \<or> hd rel = ''b'') \<and>
       (hd rel = ''a'' \<longrightarrow> rel = [''a'', ''x.txt'']))"
  proof cases
    case 1 then show ?thesis by (simp add: clean_def plain_def dotted_def slash_def)
  next
    case 2 then show ?thesis by (simp add: clean_def plain_def dotted_def slash_def)
  next
    case 3 then show ?thesis by (simp add: clean_def plain_def dotted_def slash_def)
  next
    case 4 then show ?thesis by (simp add: clean_def plain_def dotted_def slash_def)
  next
    case 5
    have "clean (take k ds)" using ds(1) sub[of k] by (auto simp: clean_def)
    moreover have "list_all plain (take k ds)" using ds(2) sub[of k] by (auto simp: list_all_iff)
    moreover have "clean [''b'']" "plain ''b''" by (simp_all add: clean_def plain_def slash_def)
    ultimately show ?thesis using 5 by (auto simp: clean_def)
  next
    case 6
    have "clean [''b'']" "plain ''b''" by (simp_all add: clean_def plain_def slash_def)
    with ds mn 6 show ?thesis by (auto simp: clean_def)
  qed
  then show "clean rel" "list_all plain rel"
    "dotted (last rel) \<Longrightarrow> 2 \<le> length rel \<and> (hd rel = ''a'' \<or> hd rel = ''b'') \<and>
       (hd rel = ''a'' \<longrightarrow> rel = [''a'', ''x.txt''])" by blast+
qed


lemma getBaseDirectories_set:
  "set (getBaseDirectories ev files) =
   (\<lambda>f. hd (split_on slash (path_dirname
          (path_relative (cwd ev) (PROJECT_LOCATION ev) f)))) ` set files"
  by (simp add: getBaseDirectories_def image_image)

lemma diff_single:
  "a \<in> A \<Longrightarrow> (\<And>d. d \<in> A \<Longrightarrow> d = a \<or> d = b) \<Longrightarrow> b \<in> N \<Longrightarrow> a \<notin> N \<Longrightarrow> A - N = {a}"
  by blast

text \<open>
  When the working directory of the process is \<open>PROJECT_LOCATION\<close>, the folder with the
  marker is left out and the other one returned, at any depth \<open>ds\<close> of the marker and
  for any spelling \<open>m\<close> of its name.
\<close>

lemma discoverTrackableFolders_leaves_marked_out:
  assumes wd: "cwd ev \<noteq> []" "hd (cwd ev) = slash" "PROJECT_LOCATION ev = cwd ev"
    and ok: "glob_error ev = None" "unreadable fs = []"
    and base: "stat fs (location ev baseDir) = Inr Dir"
    and tree: "set (below fs (location ev baseDir)) = set (marker_tree ds m)"
    and ds: "clean ds" "list_all plain ds" and m: "toLowerCase m = ''.noghost''"
  shows "\<exists>folders. discoverTrackableFolders ev fs baseDir = Fulfilled folders \<and>
                   set folders = {''a''}"
proof -
  define G where "G = glob_matches ev fs
     \<lparr>cwd_option = resolvePath ev baseDir, dot = True, ignore = None\<rparr>"
  define top where "top = (\<lambda>f. hd (split_on slash (path_dirname
          (path_relative (cwd ev) (PROJECT_LOCATION ev) f))))"
  define name where "name = (\<lambda>rel. forceForwardSlashes (join_with [slash] rel))"
  define allFiles where
    "allFiles = map forceForwardSlashes (alphasort (locale_le ev) (map (join_with [slash]) G))"
  have sa: "set allFiles = name ` set G"
    unfolding allFiles_def name_def by (simp add: image_image)
  define noghostFiles where
    "noghostFiles = filter (\<lambda>x. toLowerCase (path_basename x) = ''.noghost'') allFiles"
  have G: "rel \<in> set G \<longleftrightarrow> rel \<in> set (marker_tree ds m) \<and> dotted (last rel)" for rel
    unfolding G_def by (simp add: glob_matches_below[OF ok(2)] tree)
  have acc: "fs_access fs (location ev baseDir) = Inr ()"
    using base ok(2) by (simp add: fs_access_def)
  have listing: "directoryListing ev fs baseDir None True = Fulfilled allFiles"
    using acc ok(1)
    by (simp add: directoryListing_def fse_access_location as_promise_def glob_def
        allFiles_def G_def)
  have props: "top (name rel) = hd rel \<and>
               path_basename (name rel) = last rel \<and> (hd rel = ''a'' \<or> hd rel = ''b'') \<and>
               (hd rel = ''a'' \<longrightarrow> rel = [''a'', ''x.txt''])"
    if "rel \<in> set G" for rel
  proof -
    from that G have t: "rel \<in> set (marker_tree ds m)" and d: "dotted (last rel)" by auto
    note p = marker_tree_props[OF t ds m]
    from p(3)[OF d] have len: "2 \<le> length rel" by simp
    then have ne: "rel \<noteq> []" by auto
    have n: "name rel = join_with [slash] rel"
      unfolding name_def by (simp add: forceForwardSlashes_plain plain_join p(2))
    have "top (join_with [slash] rel) = hd rel"
      unfolding top_def by (rule top_of_join[OF wd p(1) len])
    moreover have "path_basename (join_with [slash] rel) = last rel"
      by (rule basename_join[OF ne p(1)])
    ultimately show ?thesis using n p(3)[OF d] by simp
  qed
  have ax: "[''a'', ''x.txt''] \<in> set G" by (simp add: G marker_tree_def dotted_def)
  have mk: "''b'' # ds @ [m] \<in> set G"
    using marker_name(6)[OF m] by (simp add: G marker_tree_def)
  have all_a: "''a'' \<in> top ` set allFiles"
    using props[OF ax] ax unfolding sa by force
  have all_ab: "d = ''a'' \<or> d = ''b''" if "d \<in> top ` set allFiles" for d
    using that props unfolding sa by force
  have ng_b: "''b'' \<in> top ` set noghostFiles"
  proof -
    from props[OF mk] m have "toLowerCase (path_basename (name (''b'' # ds @ [m]))) = ''.noghost''"
      "top (name (''b'' # ds @ [m])) = ''b''" by simp_all
    moreover have "name (''b'' # ds @ [m]) \<in> set allFiles"
      using mk unfolding sa by simp
    ultimately show ?thesis unfolding noghostFiles_def by force
  qed
  have ng_a: "''a'' \<notin> top ` set noghostFiles"
  proof
    assume "''a'' \<in> top ` set noghostFiles"
    then obtain rel where r: "rel \<in> set G" "top (name rel) = ''a''"
      "toLowerCase (path_basename (name rel)) = ''.noghost''"
      by (auto simp: noghostFiles_def sa)
    from props[OF r(1)] r(2) have "rel = [''a'', ''x.txt'']" by metis
    with props[OF r(1)] r(3) have "toLowerCase ''x.txt'' = ''.noghost''" by simp
    then show False by (simp add: toLowerCase_def)
  qed
  have res: "discoverTrackableFolders ev fs baseDir =
        Fulfilled (without (getBaseDirectories ev allFiles) (getBaseDirectories ev noghostFiles))"
    by (simp add: discoverTrackableFolders_def listing noghostFiles_def Let_def)
  have "set (without (getBaseDirectories ev allFiles) (getBaseDirectories ev noghostFiles))
        = top ` set allFiles - top ` set noghostFiles"
    by (simp add: getBaseDirectories_set top_def)
  also have "\<dots> = {''a''}" using all_a all_ab ng_b ng_a by (rule diff_single)
  finally show ?thesis using res by blast
qed


lemma discoverTrackableFolders_leaves_marked_out_example:
  "\<exists>folders. discoverTrackableFolders example_env marked_store ''data'' = Fulfilled folders \<and>
             set folders = {''a''}"
proof -
  have 1: "cwd example_env \<noteq> []" "hd (cwd example_env) = slash"
    "PROJECT_LOCATION example_env = cwd example_env" "glob_error example_env = None"
    by (simp_all add: example_env_def slash_def)
  have 2: "unreadable marked_store = []" by (simp add: marked_store_def)
  have 3: "stat marked_store (location example_env ''data'') = Inr Dir" by code_simp
  have 4: "set (below marked_store (location example_env ''data''))
           = set (marker_tree [''c'', ''d''] ''.NoGhost'')" by code_simp
  have 5: "clean [''c'', ''d'']" "list_all plain [''c'', ''d'']"
    "toLowerCase ''.NoGhost'' = ''.noghost''" by code_simp+
  show ?thesis
    by (rule discoverTrackableFolders_leaves_marked_out[OF 1(1,2,3,4) 2 3 4 5])
qed

text \<open>
  C4. For the tree with \<open>a/x.txt\<close>, \<open>b/y.txt\<close> and a marker below \<open>b\<close>,
  \<open>discoverTrackableFolders\<close> should return \<open>a\<close> alone. The run below is the same tree
  with the process started in \<open>/srv\<close> while \<open>PROJECT_LOCATION\<close> is \<open>/proj\<close>: the paths
  of the listing are relative to the base directory, \<open>path.relative\<close> resolves them
  against the working directory, every path gets \<open>..\<close> as its first segment, and
  nothing is returned.
\<close>

theorem discoverTrackableFolders_depends_on_working_directory:
  "directoryListing elsewhere_env marked_store ''data'' None True
     = Fulfilled [''a/x.txt'', ''b/c/d/.NoGhost'', ''b/y.txt''] \<and>
   path_relative (cwd elsewhere_env) (PROJECT_LOCATION elsewhere_env) ''a/x.txt''
     = ''../srv/a/x.txt'' \<and>
   getBaseDirectories elsewhere_env [''a/x.txt'', ''b/c/d/.NoGhost'', ''b/y.txt''] = [''..''] \<and>
   discoverTrackableFolders elsewhere_env marked_store ''data'' = Fulfilled []"
  by code_simp

section \<open>Archives: creating one and extracting it\<close>































end
